theory Spec2Isabelle
  imports Main "HOL-Library.Char_ord" "HOL-Library.Sublist"
begin

section \<open>Strings as the scripts use them\<close>

text \<open>
  A JavaScript string is modelled as a \<^typ>\<open>string\<close>. A \<^typ>\<open>char\<close> has eight bits, so
  the model covers the code units below 256. The identifier grammar is written in ASCII
  only; of the characters that \<open>String.prototype.trim\<close> removes, the seven below 256 are
  listed in \<open>is_ws\<close>.
\<close>

definition dq :: char where
  "dq = CHR 0x22"

definition nl :: char where
  "nl = CHR 0x0A"

definition is_ws :: "char \<Rightarrow> bool" where
  "is_ws c = (c \<in> set [CHR 0x09, CHR 0x0A, CHR 0x0B, CHR 0x0C, CHR 0x0D, CHR 0x20, CHR 0xA0])"

definition trim :: "string \<Rightarrow> string" where
  "trim s = rev (dropWhile is_ws (rev (dropWhile is_ws s)))"

definition startsWith :: "string \<Rightarrow> string \<Rightarrow> bool" where
  "startsWith s p = (take (length p) s = p)"

definition endsWith :: "string \<Rightarrow> string \<Rightarrow> bool" where
  "endsWith s p = (length p \<le> length s \<and> drop (length s - length p) s = p)"

text \<open>\<open>s.includes(t)\<close>: \<open>t\<close> occurs in \<open>s\<close> as a contiguous substring.\<close>

fun includes_str :: "string \<Rightarrow> string \<Rightarrow> bool" where
  "includes_str [] t = (t = [])"
| "includes_str (x # xs) t = (startsWith (x # xs) t \<or> includes_str xs t)"

text \<open>\<open>s.replace(t, u)\<close> with a string pattern: the first occurrence of \<open>t\<close> only.\<close>

fun replace_first :: "string \<Rightarrow> string \<Rightarrow> string \<Rightarrow> string" where
  "replace_first [] t u = (if t = [] then u else [])"
| "replace_first (x # xs) t u =
     (if startsWith (x # xs) t then u @ drop (length t) (x # xs)
      else x # replace_first xs t u)"

text \<open>\<open>lines.join('\n')\<close>.\<close>

fun join :: "string list \<Rightarrow> string" where
  "join [] = []"
| "join [l] = l"
| "join (l # ls) = l @ nl # join ls"

subsection \<open>Character kinds, numbers and their decimal text\<close>

definition is_digit :: "char \<Rightarrow> bool" where
  "is_digit c = (CHR ''0'' \<le> c \<and> c \<le> CHR ''9'')"

definition is_lower :: "char \<Rightarrow> bool" where
  "is_lower c = (CHR ''a'' \<le> c \<and> c \<le> CHR ''z'')"

definition is_upper :: "char \<Rightarrow> bool" where
  "is_upper c = (CHR ''A'' \<le> c \<and> c \<le> CHR ''Z'')"

definition is_alnum :: "char \<Rightarrow> bool" where
  "is_alnum c = (is_lower c \<or> is_upper c \<or> is_digit c)"

definition is_hex :: "char \<Rightarrow> bool" where
  "is_hex c = (is_digit c \<or> (CHR ''a'' \<le> c \<and> c \<le> CHR ''f'') \<or> (CHR ''A'' \<le> c \<and> c \<le> CHR ''F''))"

definition digit_val :: "char \<Rightarrow> nat" where
  "digit_val c = of_char c - of_char CHR ''0''"

definition digit_chr :: "nat \<Rightarrow> char" where
  "digit_chr d = char_of (of_char CHR ''0'' + d)"

text \<open>
  \<open>parseInt(s, 10)\<close> on a string that starts with a digit: the value of the longest digit
  prefix. \<open>None\<close> is \<open>NaN\<close> (no digit at the start). Every call in the scripts passes text
  matched by \<open>\d\<close>, so leading blanks and signs are not modelled.
\<close>

definition parseInt :: "string \<Rightarrow> nat option" where
  "parseInt s =
     (let ds = takeWhile is_digit s
      in if ds = [] then None else Some (foldl (\<lambda>n d. 10 * n + digit_val d) 0 ds))"

text \<open>
  \<open>Number.prototype.toString()\<close> of a non-negative integer (plain decimal, which is what
  JavaScript prints below \<open>10^21\<close>).
\<close>

fun toString :: "nat \<Rightarrow> string" where
  "toString n = (if n < 10 then [digit_chr n] else toString (n div 10) @ [digit_chr (n mod 10)])"

declare toString.simps [simp del]

definition padStart :: "string \<Rightarrow> nat \<Rightarrow> char \<Rightarrow> string" where
  "padStart s n c = replicate (n - length s) c @ s"

section \<open>Regular expressions\<close>

text \<open>
  The fragment of JavaScript regular expressions that the scripts use, with the
  backtracking semantics of the language: the matcher returns every way to continue,
  in priority order (greedy quantifiers try the longest run first), and the first entry
  is the match. A state is the number of characters consumed so far, the rest of the
  input and the captures.
\<close>

datatype citem = One char | Range char char

datatype atom = Chr char | Cls "citem list" | Digit

datatype rx =
    Eps
  | Bol
  | Eol
  | Atom atom
  | Seq rx rx
  | Opt rx
  | Rep atom nat "nat option"
  | Grp nat rx

type_synonym captures = "string option list"
type_synonym mstate = "nat \<times> string \<times> captures"

text \<open>
  With the \<open>i\<close> flag two characters match when \<open>Canonicalize\<close> maps them to the same
  character; \<open>Canonicalize\<close> is \<open>toUpperCase\<close>, except that it never maps a character
  outside ASCII to an ASCII one. It is modelled on ASCII letters and is the identity
  elsewhere, which gives the same matches for a pattern written in ASCII.
\<close>

definition to_upper :: "char \<Rightarrow> char" where
  "to_upper c = (if CHR ''a'' \<le> c \<and> c \<le> CHR ''z'' then char_of (of_char c - (32::nat)) else c)"

definition canon :: "bool \<Rightarrow> char \<Rightarrow> char" where
  "canon ic c = (if ic then to_upper c else c)"

definition chars :: "char \<Rightarrow> char \<Rightarrow> char list" where
  "chars lo hi = map char_of [of_char lo ..< Suc (of_char hi)]"

fun members :: "citem \<Rightarrow> char list" where
  "members (One c) = [c]"
| "members (Range lo hi) = chars lo hi"

fun am :: "bool \<Rightarrow> atom \<Rightarrow> char \<Rightarrow> bool" where
  "am ic (Chr p) c = (canon ic p = canon ic c)"
| "am ic (Cls items) c = (\<exists>m \<in> set (concat (map members items)). canon ic m = canon ic c)"
| "am ic Digit c = is_digit c"

fun ms :: "bool \<Rightarrow> rx \<Rightarrow> mstate \<Rightarrow> mstate list" where
  "ms ic Eps st = [st]"
| "ms ic Bol (i, s, c) = (if i = 0 then [(i, s, c)] else [])"
| "ms ic Eol (i, s, c) = (if s = [] then [(i, s, c)] else [])"
| "ms ic (Atom a) (i, s, c) =
     (case s of [] \<Rightarrow> [] | x # xs \<Rightarrow> if am ic a x then [(Suc i, xs, c)] else [])"
| "ms ic (Seq r1 r2) st = concat (map (ms ic r2) (ms ic r1 st))"
| "ms ic (Opt r) st = ms ic r st @ [st]"
| "ms ic (Rep a lo hi) (i, s, c) =
     (let n = length (takeWhile (am ic a) s);
          m = (case hi of None \<Rightarrow> n | Some h \<Rightarrow> min h n)
      in map (\<lambda>k. (i + k, drop k s, c)) (rev [lo ..< Suc m]))"
| "ms ic (Grp g r) (i, s, c) =
     map (\<lambda>(i', s', c'). (i', s', c'[g := Some (take (i' - i) s)])) (ms ic r (i, s, c))"

text \<open>
  \<open>s.match(re)\<close> for a regular expression without the \<open>g\<close> flag: the leftmost start at
  which the expression matches; the result array holds the matched text at index 0 and
  the groups after it (\<open>None\<close> is \<open>undefined\<close>), and \<open>None\<close> as a whole is \<open>null\<close>.
\<close>

fun match_from :: "bool \<Rightarrow> rx \<Rightarrow> nat \<Rightarrow> string \<Rightarrow> nat list \<Rightarrow> captures option" where
  "match_from ic r ng s [] = None"
| "match_from ic r ng s (k # ks) =
     (case ms ic r (k, drop k s, replicate (Suc ng) None) of
        [] \<Rightarrow> match_from ic r ng s ks
      | (i', s', c') # _ \<Rightarrow> Some (c'[0 := Some (take (i' - k) (drop k s))]))"

definition match :: "bool \<Rightarrow> rx \<Rightarrow> nat \<Rightarrow> string \<Rightarrow> captures option" where
  "match ic r ng s = match_from ic r ng s [0 ..< Suc (length s)]"

definition cat :: "rx list \<Rightarrow> rx" where
  "cat rs = foldr Seq rs Eps"

definition lit :: "string \<Rightarrow> rx" where
  "lit s = cat (map (\<lambda>c. Atom (Chr c)) s)"

definition star :: "atom \<Rightarrow> rx" where
  "star a = Rep a 0 None"

definition exactly :: "atom \<Rightarrow> nat \<Rightarrow> rx" where
  "exactly a n = Rep a n (Some n)"

section \<open>The identifier grammar\<close>

text \<open>
  \<^verbatim>\<open>/^rcan:\/\/([a-z0-9][a-z0-9.-]*[a-z0-9])\/([a-z0-9][a-z0-9-]*[a-z0-9])\/([a-z0-9][a-z0-9-]*[a-z0-9])\/([0-9a-f]{8}(?:-[0-9a-f]{4}-[0-9a-f]{4}-[0-9a-f]{4}-[0-9a-f]{12})?)(?::(\d{1,5}))?(\/?[a-z][a-z0-9/-]*)?$/i\<close>
\<close>

definition alnum :: atom where
  "alnum = Cls [Range CHR ''a'' CHR ''z'', Range CHR ''0'' CHR ''9'']"

definition alnum_dot_dash :: atom where
  "alnum_dot_dash = Cls [Range CHR ''a'' CHR ''z'', Range CHR ''0'' CHR ''9'', One CHR ''.'', One CHR ''-'']"

definition alnum_dash :: atom where
  "alnum_dash = Cls [Range CHR ''a'' CHR ''z'', Range CHR ''0'' CHR ''9'', One CHR ''-'']"

definition hex :: atom where
  "hex = Cls [Range CHR ''0'' CHR ''9'', Range CHR ''a'' CHR ''f'']"

definition letter :: atom where
  "letter = Cls [Range CHR ''a'' CHR ''z'']"

definition alnum_slash_dash :: atom where
  "alnum_slash_dash = Cls [Range CHR ''a'' CHR ''z'', Range CHR ''0'' CHR ''9'', One CHR ''/'', One CHR ''-'']"

definition registry_rx :: rx where
  "registry_rx = cat [Atom alnum, star alnum_dot_dash, Atom alnum]"

definition slug :: rx where
  "slug = cat [Atom alnum, star alnum_dash, Atom alnum]"

definition deviceId_rx :: rx where
  "deviceId_rx = cat [exactly hex 8,
     Opt (cat [lit ''-'', exactly hex 4, lit ''-'', exactly hex 4, lit ''-'', exactly hex 4,
               lit ''-'', exactly hex 12])]"

definition port_rx :: rx where
  "port_rx = Opt (cat [lit '':'', Grp 5 (Rep Digit 1 (Some 5))])"

definition capability_rx :: rx where
  "capability_rx = Opt (Grp 6 (cat [Opt (lit ''/''), Atom letter, star alnum_slash_dash]))"

definition RURI_REGEX :: rx where
  "RURI_REGEX = cat
     [Bol, lit ''rcan://'',
      Grp 1 registry_rx, lit ''/'',
      Grp 2 slug, lit ''/'',
      Grp 3 slug, lit ''/'',
      Grp 4 deviceId_rx,
      port_rx,
      capability_rx,
      Eol]"

definition match_RURI :: "string \<Rightarrow> captures option" where
  "match_RURI s = match True RURI_REGEX 6 s"

record RURIParts =
  registry :: string
  manufacturer :: string
  model :: string
  deviceId :: string
  port :: "nat option"
  capability :: "string option"

record ParsedRURI = RURIParts +
  raw :: string

record RURIValidationResult =
  valid :: bool
  error :: "string option"
  parsed :: "ParsedRURI option"

text \<open>A captured group that took part in the match; \<open>undefined\<close> groups read as \<open>None\<close>.\<close>

definition grp :: "captures \<Rightarrow> nat \<Rightarrow> string option" where
  "grp m g = (if g < length m then m ! g else None)"

definition str_of :: "string option \<Rightarrow> string" where
  "str_of v = (case v of None \<Rightarrow> ''undefined'' | Some s \<Rightarrow> s)"

text \<open>\<open>capability?.replace(/^\//, '') || undefined\<close>\<close>

definition strip_capability :: "string option \<Rightarrow> string option" where
  "strip_capability cap =
     (case cap of
        None \<Rightarrow> None
      | Some s \<Rightarrow>
          (let t = (if startsWith s ''/'' then drop 1 s else s)
           in if t = [] then None else Some t))"

text \<open>
  \<open>port ? parseInt(port, 10) : undefined\<close>. The group matches \<open>\d{1,5}\<close>, so \<open>parseInt\<close>
  never gives \<open>NaN\<close> here; in the \<open>port\<close> field \<open>None\<close> is \<open>undefined\<close>.
\<close>

definition port_of :: "string option \<Rightarrow> nat option" where
  "port_of p = (case p of None \<Rightarrow> None | Some ds \<Rightarrow> if ds = [] then None else parseInt ds)"

definition parsed_of :: "string \<Rightarrow> captures \<Rightarrow> ParsedRURI" where
  "parsed_of trimmed m =
     \<lparr> registry = str_of (grp m 1), manufacturer = str_of (grp m 2), model = str_of (grp m 3),
       deviceId = str_of (grp m 4), port = port_of (grp m 5),
       capability = strip_capability (grp m 6), raw = trimmed \<rparr>"

text \<open>\<open>parseRURI\<close> of the validator module.\<close>

definition parseRURI :: "string \<Rightarrow> RURIValidationResult" where
  "parseRURI ruri =
     (if ruri = [] then \<lparr> valid = False, error = Some ''RURI cannot be empty'', parsed = None \<rparr>
      else let trimmedRuri = trim ruri in
        if \<not> startsWith trimmedRuri ''rcan://''
        then \<lparr> valid = False, error = Some ''RURI must start with rcan://'', parsed = None \<rparr>
        else case match_RURI trimmedRuri of
          None \<Rightarrow> \<lparr> valid = False, error = Some ''Invalid RURI format'', parsed = None \<rparr>
        | Some m \<Rightarrow>
            (case port_of (grp m 5) of
               Some portNum \<Rightarrow>
                 if portNum < 1 \<or> portNum > 65535
                 then \<lparr> valid = False, error = Some ''Port must be between 1 and 65535'', parsed = None \<rparr>
                 else \<lparr> valid = True, error = None, parsed = Some (parsed_of trimmedRuri m) \<rparr>
             | None \<Rightarrow> \<lparr> valid = True, error = None, parsed = Some (parsed_of trimmedRuri m) \<rparr>))"

text \<open>\<open>parseRURI\<close> as the sync script inlines it: no scheme test, no port range test.\<close>

definition parseRURI_sync :: "string \<Rightarrow> ParsedRURI option" where
  "parseRURI_sync ruri =
     (case match_RURI (trim ruri) of
        None \<Rightarrow> None
      | Some m \<Rightarrow> Some (parsed_of (trim ruri) m))"

definition buildRURI :: "'a RURIParts_scheme \<Rightarrow> string" where
  "buildRURI parts =
     (let ruri = ''rcan://'' @ registry parts @ ''/'' @ manufacturer parts @ ''/'' @ model parts
                 @ ''/'' @ deviceId parts;
          ruri = (case port parts of
                    Some p \<Rightarrow> if p \<noteq> 0 then ruri @ '':'' @ toString p else ruri
                  | None \<Rightarrow> ruri);
          ruri = (case capability parts of
                    Some c \<Rightarrow> if c \<noteq> [] then ruri @ ''/'' @ c else ruri
                  | None \<Rightarrow> ruri)
      in ruri)"


section \<open>The grammar in plain terms\<close>

text \<open>
  What a component must look like, stated without the regular expression. Two strings
  are case variants of each other when they agree character by character up to the case
  of ASCII letters.
\<close>

definition ci_eq :: "string \<Rightarrow> string \<Rightarrow> bool" where
  "ci_eq a b = list_all2 (\<lambda>x y. to_upper x = to_upper y) a b"

definition registry_ok :: "string \<Rightarrow> bool" where
  "registry_ok r = (2 \<le> length r \<and> is_alnum (hd r) \<and> is_alnum (last r)
     \<and> list_all (\<lambda>c. is_alnum c \<or> c = CHR ''.'' \<or> c = CHR ''-'') r)"

definition slug_ok :: "string \<Rightarrow> bool" where
  "slug_ok r = (2 \<le> length r \<and> is_alnum (hd r) \<and> is_alnum (last r)
     \<and> list_all (\<lambda>c. is_alnum c \<or> c = CHR ''-'') r)"

datatype pat = Hx nat | Dash

fun fits :: "pat list \<Rightarrow> string \<Rightarrow> bool" where
  "fits [] s = (s = [])"
| "fits (Hx n # ps) s = (n \<le> length s \<and> list_all is_hex (take n s) \<and> fits ps (drop n s))"
| "fits (Dash # ps) s = (s \<noteq> [] \<and> hd s = CHR ''-'' \<and> fits ps (tl s))"

definition uuid_tail :: "pat list" where
  "uuid_tail = [Dash, Hx 4, Dash, Hx 4, Dash, Hx 4, Dash, Hx 12]"

definition deviceId_ok :: "string \<Rightarrow> bool" where
  "deviceId_ok d = (fits [Hx 8] d \<or> fits (Hx 8 # uuid_tail) d)"

definition port_text_ok :: "string \<Rightarrow> bool" where
  "port_text_ok ds = (1 \<le> length ds \<and> length ds \<le> 5 \<and> list_all is_digit ds)"

definition capability_ok :: "string \<Rightarrow> bool" where
  "capability_ok c = (c \<noteq> [] \<and> (is_lower (hd c) \<or> is_upper (hd c))
     \<and> list_all (\<lambda>x. is_alnum x \<or> x = CHR ''/'' \<or> x = CHR ''-'') (tl c))"

definition cap_text_ok :: "string \<Rightarrow> bool" where
  "cap_text_ok t = capability_ok (if startsWith t ''/'' then drop 1 t else t)"

text \<open>
  A component set whose every part fits the group of \<open>RURI_REGEX\<close> that captures it. The
  groups of the authority and of the slugs ask for a first and for a last character, hence
  for two characters at least.
\<close>

definition valid_parts :: "'a RURIParts_scheme \<Rightarrow> bool" where
  "valid_parts c =
     (registry_ok (registry c) \<and> slug_ok (manufacturer c) \<and> slug_ok (model c)
      \<and> deviceId_ok (deviceId c)
      \<and> (case port c of None \<Rightarrow> True | Some p \<Rightarrow> 1 \<le> p \<and> p \<le> 65535)
      \<and> (case capability c of None \<Rightarrow> True | Some t \<Rightarrow> capability_ok t))"

text \<open>
  The text of an identifier from its pieces: the scheme as written, the four mandatory
  parts, the digits of the port group and the text of the capability group.
\<close>

definition port_text :: "string option \<Rightarrow> string" where
  "port_text pg = (case pg of None \<Rightarrow> [] | Some ds \<Rightarrow> CHR '':'' # ds)"

definition cap_text :: "string option \<Rightarrow> string" where
  "cap_text cg = (case cg of None \<Rightarrow> [] | Some t \<Rightarrow> t)"

definition ruri_text ::
  "string \<Rightarrow> string \<Rightarrow> string \<Rightarrow> string \<Rightarrow> string \<Rightarrow> string option \<Rightarrow> string option \<Rightarrow> string" where
  "ruri_text sch reg man mdl dev pg cg =
     sch @ reg @ ''/'' @ man @ ''/'' @ mdl @ ''/'' @ dev @ port_text pg @ cap_text cg"

definition pg_ok :: "string option \<Rightarrow> bool" where
  "pg_ok pg = (case pg of None \<Rightarrow> True | Some ds \<Rightarrow> port_text_ok ds)"

definition cg_ok :: "string option \<Rightarrow> bool" where
  "cg_ok cg = (case cg of None \<Rightarrow> True | Some t \<Rightarrow> cap_text_ok t)"

definition ruri_ok ::
  "string \<Rightarrow> string \<Rightarrow> string \<Rightarrow> string \<Rightarrow> string \<Rightarrow> string option \<Rightarrow> string option \<Rightarrow> bool" where
  "ruri_ok sch reg man mdl dev pg cg =
     (ci_eq ''rcan://'' sch \<and> registry_ok reg \<and> slug_ok man \<and> slug_ok mdl \<and> deviceId_ok dev
      \<and> pg_ok pg \<and> cg_ok cg)"

definition tail_start_ok :: "string \<Rightarrow> bool" where
  "tail_start_ok t = (t = [] \<or> hd t = CHR '':'' \<or> hd t = CHR ''/'' \<or> is_lower (hd t) \<or> is_upper (hd t))"

subsection \<open>The matcher as a relation\<close>

text \<open>
  \<open>Mt ic r i pre s' c c'\<close>: at offset \<open>i\<close> and before the rest \<open>s'\<close>, the expression
  \<open>r\<close> can consume exactly \<open>pre\<close> and turn the captures \<open>c\<close> into \<open>c'\<close>. The
  matcher \<open>ms\<close> lists exactly these continuations.
\<close>

fun Mt :: "bool \<Rightarrow> rx \<Rightarrow> nat \<Rightarrow> string \<Rightarrow> string \<Rightarrow> captures \<Rightarrow> captures \<Rightarrow> bool" where
  "Mt ic Eps i pre s' c c' = (pre = [] \<and> c' = c)"
| "Mt ic Bol i pre s' c c' = (pre = [] \<and> i = 0 \<and> c' = c)"
| "Mt ic Eol i pre s' c c' = (pre = [] \<and> s' = [] \<and> c' = c)"
| "Mt ic (Atom a) i pre s' c c' = (\<exists>x. pre = [x] \<and> am ic a x \<and> c' = c)"
| "Mt ic (Seq r1 r2) i pre s' c c' =
     (\<exists>p1 p2 c1. pre = p1 @ p2 \<and> Mt ic r1 i p1 (p2 @ s') c c1 \<and> Mt ic r2 (i + length p1) p2 s' c1 c')"
| "Mt ic (Opt r) i pre s' c c' = (Mt ic r i pre s' c c' \<or> (pre = [] \<and> c' = c))"
| "Mt ic (Rep a lo hi) i pre s' c c' =
     (list_all (am ic a) pre \<and> lo \<le> length pre
      \<and> (case hi of None \<Rightarrow> True | Some h \<Rightarrow> length pre \<le> h)
      \<and> c' = c)"
| "Mt ic (Grp g r) i pre s' c c' = (\<exists>c1. Mt ic r i pre s' c c1 \<and> c' = c1[g := Some pre])"

definition upd :: "nat \<Rightarrow> string option \<Rightarrow> captures \<Rightarrow> captures" where
  "upd g v c = (case v of None \<Rightarrow> c | Some t \<Rightarrow> c[g := Some t])"

text \<open>Two matcher states that differ only in the case of letters.\<close>

definition caps_rel :: "captures \<Rightarrow> captures \<Rightarrow> bool" where
  "caps_rel c d = list_all2 (rel_option ci_eq) c d"

definition st_rel :: "mstate \<Rightarrow> mstate \<Rightarrow> bool" where
  "st_rel a b = (case a of (i, s, c) \<Rightarrow> case b of (j, t, d) \<Rightarrow> i = j \<and> ci_eq s t \<and> caps_rel c d)"

text \<open>The characters an identifier is written with.\<close>

definition gch :: "char \<Rightarrow> bool" where
  "gch c = (is_alnum c \<or> c = CHR ''.'' \<or> c = CHR ''-'' \<or> c = CHR ''/'' \<or> c = CHR '':'')"

text \<open>A sample component set, with a full UUID, a port and a nested capability.\<close>

definition ex_parts :: RURIParts where
  "ex_parts = \<lparr> registry = ''example.com'', manufacturer = ''acme'', model = ''arm-bot'',
       deviceId = ''deadbeef-1234-5678-9abc-def012345678'', port = Some 8080, capability = Some ''arm/grasp'' \<rparr>"

section \<open>Manifests\<close>

text \<open>
  A manifest is what \<open>response.json()\<close> returned, read through the \<open>RobotManifest\<close>
  interface. Nothing checks the four mandatory fields on the way, so they are kept as
  JavaScript values that may be absent or hold something other than a string; the optional
  fields have the types the interface declares. Numbers are non-negative integers (which
  JavaScript prints in plain decimal below \<open>10^21\<close>). The \<open>discovery\<close> field of the interface
  is read by no function and is left out.
\<close>

datatype jsval = Undefined | Null | Bool bool | Str string

text \<open>The text a template literal puts for a value.\<close>

fun to_str :: "jsval \<Rightarrow> string" where
  "to_str Undefined = ''undefined''"
| "to_str Null = ''null''"
| "to_str (Bool b) = (if b then ''true'' else ''false'')"
| "to_str (Str s) = s"


record Specs =
  weight_kg :: "nat option"
  dimensions :: "string option"
  dof :: "nat option"
  sensors :: "string list option"
  compute :: "string option"
  ros_version :: "string list option"

record Links =
  urdf :: "string option"
  github :: "string option"
  website :: "string option"
  documentation :: "string option"

record Owner =
  o_name :: string
  o_type :: string
  o_contact :: "string option"

record RobotManifest =
  m_ruri :: jsval
  m_name :: jsval
  m_manufacturer :: jsval
  m_model :: jsval
  m_description :: "string option"
  m_version :: "string option"
  m_capabilities :: "string list option"
  m_status :: "string option"
  m_specs :: "Specs option"
  m_links :: "Links option"
  m_owner :: "Owner option"


text \<open>A string between double quotes, as the YAML lines are written.\<close>

definition quoted :: "string \<Rightarrow> string" where
  "quoted s = dq # s @ [dq]"

text \<open>\<open>x || fallback\<close> on an optional string: the empty string is falsy.\<close>

definition or_else :: "string option \<Rightarrow> string \<Rightarrow> string" where
  "or_else v d = (case v of None \<Rightarrow> d | Some s \<Rightarrow> if s = [] then d else s)"

text \<open>\<open>if (x) lines.push(...)\<close> for a string, a number and a list.\<close>

definition str_line :: "string \<Rightarrow> string option \<Rightarrow> string list" where
  "str_line label v = (case v of None \<Rightarrow> [] | Some s \<Rightarrow> if s = [] then [] else [label @ quoted s])"

definition num_line :: "string \<Rightarrow> nat option \<Rightarrow> string list" where
  "num_line label v = (case v of None \<Rightarrow> [] | Some n \<Rightarrow> if n = 0 then [] else [label @ toString n])"

definition list_lines :: "string \<Rightarrow> string list option \<Rightarrow> string list" where
  "list_lines label v =
     (case v of None \<Rightarrow> []
      | Some xs \<Rightarrow> if length xs > 0 then label # map (\<lambda>x. ''    - '' @ quoted x) xs else [])"

text \<open>\<open>manifest.links?.urdf\<close> and its siblings.\<close>

definition link :: "RobotManifest \<Rightarrow> (Links \<Rightarrow> string option) \<Rightarrow> string option" where
  "link manifest f = (case m_links manifest of None \<Rightarrow> None | Some l \<Rightarrow> f l)"

text \<open>\<open>manifest.status === 'offline' ? 'retired' : 'active'\<close>\<close>

definition record_status :: "RobotManifest \<Rightarrow> string" where
  "record_status manifest = (if m_status manifest = Some ''offline'' then ''retired'' else ''active'')"

text \<open>\<open>manifest.capabilities || []\<close>\<close>

definition capabilities_of :: "RobotManifest \<Rightarrow> string list" where
  "capabilities_of manifest = (case m_capabilities manifest of None \<Rightarrow> [] | Some cs \<Rightarrow> cs)"

text \<open>
  \<open>manifestToYaml\<close> of the sync script: the lines it pushes, then joined. \<open>today\<close> is
  \<open>new Date().toISOString().split('T')[0]\<close>.
\<close>

definition yamlLines :: "RobotManifest \<Rightarrow> string \<Rightarrow> string \<Rightarrow> string list" where
  "yamlLines manifest rrn today =
     [''rrn: '' @ quoted rrn,
      ''name: '' @ quoted (to_str (m_name manifest)),
      ''manufacturer: '' @ quoted (to_str (m_manufacturer manifest)),
      ''model: '' @ quoted (to_str (m_model manifest)),
      ''description: '' @ quoted (or_else (m_description manifest) ''Robot registered via RCAN protocol''),
      ''status: '' @ quoted (record_status manifest),
      []]
     @ str_line ''urdf_url: '' (link manifest urdf)
     @ str_line ''github_url: '' (link manifest github)
     @ str_line ''website: '' (link manifest website)
     @ [[]]
     @ (case m_specs manifest of
          None \<Rightarrow> []
        | Some sp \<Rightarrow>
            [''specs:'']
            @ num_line ''  weight_kg: '' (weight_kg sp)
            @ str_line ''  dimensions: '' (dimensions sp)
            @ num_line ''  dof: '' (dof sp)
            @ str_line ''  compute: '' (compute sp)
            @ list_lines ''  ros_version:'' (ros_version sp)
            @ list_lines ''  sensors:'' (sensors sp)
            @ [[]])
     @ (case m_owner manifest of
          None \<Rightarrow> []
        | Some ow \<Rightarrow> [''owner:'', ''  name: '' @ quoted (o_name ow), ''  type: '' @ quoted (o_type ow), []])
     @ [''ruri: '' @ quoted (to_str (m_ruri manifest)),
        [],
        ''submitted_by: '' @ quoted ''rcan-auto-sync'',
        ''submitted_date: '' @ quoted today,
        ''tags:'']
     @ map (\<lambda>t. ''  - '' @ quoted t) (''rcan-synced'' # capabilities_of manifest)"

definition manifestToYaml :: "RobotManifest \<Rightarrow> string \<Rightarrow> string \<Rightarrow> string" where
  "manifestToYaml manifest rrn today = join (yamlLines manifest rrn today) @ [nl]"

text \<open>
  \<open>manifestToRegistryData\<close> of the validator module. It calls \<open>parseRURI(manifest.ruri)\<close>
  and drops the result; the call throws only when the field is \<open>true\<close> (truthy and without
  a \<open>trim\<close> method), which is the \<open>None\<close> below.
\<close>

record RegistryData =
  rd_rrn :: string
  rd_name :: jsval
  rd_manufacturer :: jsval
  rd_model :: jsval
  rd_description :: string
  rd_status :: string
  rd_ruri :: jsval
  rd_urdf_url :: "string option"
  rd_github_url :: "string option"
  rd_website :: "string option"
  rd_specs :: "Specs option"
  rd_owner :: "(string \<times> string) option"
  rd_tags :: "string list"
  rd_submitted_by :: string
  rd_submitted_date :: string

definition manifestToRegistryData :: "RobotManifest \<Rightarrow> string \<Rightarrow> string \<Rightarrow> RegistryData option" where
  "manifestToRegistryData manifest rrn today =
     (if m_ruri manifest = Bool True then None
      else Some
        \<lparr> rd_rrn = rrn,
          rd_name = m_name manifest,
          rd_manufacturer = m_manufacturer manifest,
          rd_model = m_model manifest,
          rd_description = or_else (m_description manifest)
             (''Robot registered via RCAN protocol from '' @ to_str (m_ruri manifest)),
          rd_status = record_status manifest,
          rd_ruri = m_ruri manifest,
          rd_urdf_url = link manifest urdf,
          rd_github_url = link manifest github,
          rd_website = link manifest website,
          rd_specs = m_specs manifest,
          rd_owner = map_option (\<lambda>ow. (o_name ow, o_type ow)) (m_owner manifest),
          rd_tags = ''rcan-registered'' # capabilities_of manifest,
          rd_submitted_by = ''rcan-auto-register'',
          rd_submitted_date = today \<rparr>)"

section \<open>The record store and the sync script\<close>

text \<open>
  The robots directory: file names with their contents, in the order of the listing. Node
  promises no order for \<open>readdirSync\<close>; the model keeps the files in the order of their
  creation. Names are distinct. Writing an existing file replaces its content in place,
  writing a new one adds it at the end.
\<close>

type_synonym dir = "(string \<times> string) list"

definition readdirSync :: "dir \<Rightarrow> string list" where
  "readdirSync robotsDir = map fst robotsDir"

fun writeFileSync :: "dir \<Rightarrow> string \<Rightarrow> string \<Rightarrow> dir" where
  "writeFileSync [] path content = [(path, content)]"
| "writeFileSync ((f, c) # rest) path content =
     (if f = path then (f, content) # rest else (f, c) # writeFileSync rest path content)"

text \<open>\<^verbatim>\<open>/^RRN-\d{8}\.yaml$/\<close> and \<^verbatim>\<open>/RRN-(\d{8})\.yaml/\<close>, both without flags.\<close>

definition RRN_FILE_REGEX :: rx where
  "RRN_FILE_REGEX = cat [Bol, lit ''RRN-'', exactly Digit 8, lit ''.yaml'', Eol]"

definition RRN_NUM_REGEX :: rx where
  "RRN_NUM_REGEX = cat [lit ''RRN-'', Grp 1 (exactly Digit 8), lit ''.yaml'']"

text \<open>\<open>Math.max\<close> on two numbers, \<open>None\<close> being \<open>NaN\<close>.\<close>

definition js_max :: "nat option \<Rightarrow> nat option \<Rightarrow> nat option" where
  "js_max a b = (case a of None \<Rightarrow> None | Some x \<Rightarrow> (case b of None \<Rightarrow> None | Some y \<Rightarrow> Some (max x y)))"

definition getNextRRN :: "dir \<Rightarrow> string" where
  "getNextRRN robotsDir =
     (let files = readdirSync robotsDir;
          rrns = map (\<lambda>f. parseInt (case match False RRN_NUM_REGEX 1 f of
                                        None \<Rightarrow> ''0''
                                      | Some m \<Rightarrow> or_else (grp m 1) ''0''))
                     (filter (\<lambda>f. match False RRN_FILE_REGEX 0 f \<noteq> None) files);
          maxRRN = (case rrns of [] \<Rightarrow> Some 0 | x # xs \<Rightarrow> foldl js_max x xs);
          nextNum = padStart (case maxRRN of None \<Rightarrow> ''NaN'' | Some n \<Rightarrow> toString (n + 1)) 8 CHR ''0''
      in ''RRN-'' @ nextNum)"

text \<open>The line \<open>findExistingByRURI\<close> looks for in a file.\<close>

definition ruri_line :: "string \<Rightarrow> string" where
  "ruri_line ruri = ''ruri: '' @ quoted ruri"

definition holds :: "string \<Rightarrow> string \<times> string \<Rightarrow> bool" where
  "holds ruri e = (endsWith (fst e) ''.yaml'' \<and> includes_str (snd e) (ruri_line ruri))"

fun findExistingByRURI :: "dir \<Rightarrow> string \<Rightarrow> string option" where
  "findExistingByRURI [] ruri = None"
| "findExistingByRURI (e # rest) ruri =
     (if holds ruri e then Some (replace_first (fst e) ''.yaml'' [])
      else findExistingByRURI rest ruri)"

text \<open>\<open>ruriToHttpUrl\<close> of the sync script.\<close>

definition ruriToHttpUrl :: "ParsedRURI \<Rightarrow> string" where
  "ruriToHttpUrl p =
     (let portNum = (case port p of None \<Rightarrow> 8080 | Some n \<Rightarrow> if n = 0 then 8080 else n);
          protocol = (if registry p = ''localhost'' then ''http'' else ''https'')
      in protocol @ ''://'' @ registry p @ '':'' @ toString portNum @ ''/.well-known/rcan-manifest.json'')"

text \<open>
  The network is a function from the URL to what \<open>fetchManifest\<close> gives: the manifest, or
  the error it throws (a response that is not ok, or a failure of the transport).
\<close>

datatype fetch_error = HttpError nat string | TransportError string

type_synonym network = "string \<Rightarrow> fetch_error + RobotManifest"

text \<open>
  What \<open>syncRURI\<close> reports on the console: the two error lines, the dry-run preview, or the
  write. The flag says whether an existing record was found (update) or not (create).
\<close>

datatype outcome =
    InvalidRURI
  | FetchFailed fetch_error
  | Previewed bool string string
  | Persisted bool string

definition syncRURI :: "string \<Rightarrow> dir \<Rightarrow> bool \<Rightarrow> network \<Rightarrow> string \<Rightarrow> dir \<times> outcome" where
  "syncRURI ruri robotsDir dryRun net today =
     (case parseRURI_sync ruri of
        None \<Rightarrow> (robotsDir, InvalidRURI)
      | Some p \<Rightarrow>
          (case net (ruriToHttpUrl p) of
             Inl err \<Rightarrow> (robotsDir, FetchFailed err)
           | Inr manifest \<Rightarrow>
               (let existingRRN = findExistingByRURI robotsDir ruri;
                    found = (case existingRRN of None \<Rightarrow> False | Some r \<Rightarrow> r \<noteq> []);
                    rrn = (case existingRRN of
                             None \<Rightarrow> getNextRRN robotsDir
                           | Some r \<Rightarrow> if r \<noteq> [] then r else getNextRRN robotsDir);
                    yamlContent = manifestToYaml manifest rrn today;
                    filePath = rrn @ ''.yaml''
                in if dryRun then (robotsDir, Previewed found rrn yamlContent)
                   else (writeFileSync robotsDir filePath yamlContent, Persisted found rrn))))"

text \<open>The record identifier a run reports, if any.\<close>

fun rrn_of :: "outcome \<Rightarrow> string option" where
  "rrn_of (Previewed found rrn yaml) = Some rrn"
| "rrn_of (Persisted found rrn) = Some rrn"
| "rrn_of other = None"

text \<open>Any number of runs, one after the other on the same directory.\<close>

fun sync_each :: "(string \<times> network \<times> string) list \<Rightarrow> bool \<Rightarrow> dir \<Rightarrow> dir" where
  "sync_each [] dryRun robotsDir = robotsDir"
| "sync_each ((ruri, net, today) # rest) dryRun robotsDir =
     sync_each rest dryRun (fst (syncRURI ruri robotsDir dryRun net today))"

text \<open>How many record files of the directory carry the line of a source.\<close>

definition records_for :: "string \<Rightarrow> dir \<Rightarrow> nat" where
  "records_for ruri robotsDir = length (filter (holds ruri) robotsDir)"

subsection \<open>Identifiers in plain terms\<close>

definition is_rrn_file :: "string \<Rightarrow> bool" where
  "is_rrn_file f = (length f = 17 \<and> take 4 f = ''RRN-'' \<and> list_all is_digit (take 8 (drop 4 f))
     \<and> drop 12 f = ''.yaml'')"

definition rrn_number :: "string \<Rightarrow> nat option" where
  "rrn_number f = (if is_rrn_file f then parseInt (take 8 (drop 4 f)) else None)"

definition rrn_numbers :: "dir \<Rightarrow> nat list" where
  "rrn_numbers robotsDir = List.map_filter rrn_number (map fst robotsDir)"

text \<open>The manifest of the end-to-end example and a network that serves it.\<close>

definition ex_manifest :: RobotManifest where
  "ex_manifest =
     \<lparr> m_ruri = Str ''rcan://example.com/acme/arm-bot/deadbeef'', m_name = Str ''ArmBot'',
       m_manufacturer = Str ''Acme'', m_model = Str ''arm-bot'', m_description = None,
       m_version = None, m_capabilities = Some [''grasp''], m_status = Some ''offline'',
       m_specs = None, m_links = None, m_owner = None \<rparr>"

definition ex_net :: network where
  "ex_net url = (if url = ''https://example.com:8080/.well-known/rcan-manifest.json''
                 then Inr ex_manifest else Inl (HttpError 404 ''Not Found''))"



definition moved_manifest :: RobotManifest where
  "moved_manifest = ex_manifest \<lparr> m_ruri := Str ''rcan://example.com/acme/arm-bot/cafebabe'' \<rparr>"

definition moved_net :: network where
  "moved_net url = (if url = ''https://example.com:8080/.well-known/rcan-manifest.json''
                    then Inr moved_manifest else Inl (HttpError 404 ''Not Found''))"

section \<open>Properties\<close>

lemma of_char_lt: "(of_char (c::char) :: nat) < 256"
  by simp

lemma set_chars: "set (chars lo hi) = {m. lo \<le> m \<and> m \<le> hi}"
proof -
  have "m \<in> char_of ` {of_char lo ..< Suc (of_char hi)} \<longleftrightarrow> lo \<le> m \<and> m \<le> hi" for m :: char
  proof
    assume "m \<in> char_of ` {of_char lo ..< Suc (of_char hi)}"
    then obtain n :: nat where n: "m = char_of n" "of_char lo \<le> n" "n \<le> of_char hi" by auto
    from n(3) of_char_lt [of hi] have "n < 256" by linarith
    with n have "of_char m = n" by simp
    with n show "lo \<le> m \<and> m \<le> hi" by (simp add: less_eq_char_def)
  next
    assume "lo \<le> m \<and> m \<le> hi"
    then have "(of_char m :: nat) \<in> {of_char lo ..< Suc (of_char hi)}" by (simp add: less_eq_char_def)
    then have "char_of (of_char m :: nat) \<in> char_of ` {of_char lo ..< Suc (of_char hi)}" by (rule imageI)
    then show "m \<in> char_of ` {of_char lo ..< Suc (of_char hi)}" by simp
  qed
  moreover have "set (chars lo hi) = char_of ` {of_char lo ..< Suc (of_char hi)}"
    by (simp only: chars_def set_map set_upt)
  ultimately show ?thesis by blast
qed

lemma of_char_to_upper: "of_char (to_upper c) = (if is_lower c then of_char c - 32 else (of_char c :: nat))"
proof -
  have "(of_char c - 32 :: nat) < 256" using of_char_lt [of c] by linarith
  then show ?thesis by (auto simp: to_upper_def is_lower_def)
qed

lemma char_eq_iff_nat: "(a::char) = b \<longleftrightarrow> (of_char a :: nat) = of_char b"
  by simp

lemma lower_range: "(\<exists>m. CHR ''a'' \<le> m \<and> m \<le> CHR ''z'' \<and> to_upper m = to_upper c) \<longleftrightarrow> is_lower c \<or> is_upper c"
proof
  assume "\<exists>m. CHR ''a'' \<le> m \<and> m \<le> CHR ''z'' \<and> to_upper m = to_upper c"
  then obtain m where m: "is_lower m" "to_upper m = to_upper c" by (auto simp: is_lower_def)
  from m(2) have "(of_char (to_upper m) :: nat) = of_char (to_upper c)" by simp
  with m(1) show "is_lower c \<or> is_upper c"
    by (auto simp: of_char_to_upper is_lower_def is_upper_def less_eq_char_def split: if_splits)
next
  assume "is_lower c \<or> is_upper c"
  then show "\<exists>m. CHR ''a'' \<le> m \<and> m \<le> CHR ''z'' \<and> to_upper m = to_upper c"
  proof
    assume "is_lower c" then show ?thesis by (auto simp: is_lower_def)
  next
    assume u: "is_upper c"
    let ?m = "char_of (of_char c + 32 :: nat) :: char"
    from u have b: "65 \<le> (of_char c :: nat)" "(of_char c :: nat) \<le> 90" by (auto simp: is_upper_def less_eq_char_def)
    then have om: "(of_char ?m :: nat) = of_char c + 32" by simp
    with b have lm: "is_lower ?m" by (simp add: is_lower_def less_eq_char_def)
    from b have nl: "\<not> is_lower c" by (simp add: is_lower_def less_eq_char_def)
    have "(of_char (to_upper ?m) :: nat) = of_char (to_upper c)"
      using lm nl om by (simp add: of_char_to_upper)
    then have "to_upper ?m = to_upper c" by simp
    with lm show ?thesis unfolding is_lower_def by blast
  qed
qed

lemma le_takeWhile_iff:
  "k \<le> length (takeWhile P s) \<longleftrightarrow> k \<le> length s \<and> list_all P (take k s)"
proof (induction s arbitrary: k)
  case Nil then show ?case by simp
next
  case (Cons x xs)
  then show ?case by (cases k) auto
qed

lemma ms_Rep_mem0:
  "(i', s', c') \<in> set (ms ic (Rep a lo hi) (i, s, c)) \<longleftrightarrow>
     (\<exists>k. i' = i + k \<and> s' = drop k s \<and> c' = c \<and> lo \<le> k \<and> k \<le> length (takeWhile (am ic a) s)
        \<and> (case hi of None \<Rightarrow> True | Some h \<Rightarrow> k \<le> h))"
  by (auto simp: Let_def less_Suc_eq_le split: option.splits)

lemma ms_Rep_mem:
  "(i', s', c') \<in> set (ms ic (Rep a lo hi) (i, s, c)) \<longleftrightarrow>
     (\<exists>k. i' = i + k \<and> s' = drop k s \<and> c' = c \<and> lo \<le> k \<and> k \<le> length s
        \<and> list_all (am ic a) (take k s)
        \<and> (case hi of None \<Rightarrow> True | Some h \<Rightarrow> k \<le> h))"
  unfolding ms_Rep_mem0 le_takeWhile_iff by blast

lemma ms_iff:
  "(i', s', c') \<in> set (ms ic r (i, s, c)) \<longleftrightarrow>
     (\<exists>pre. s = pre @ s' \<and> i' = i + length pre \<and> Mt ic r i pre s' c c')"
proof (induction r arbitrary: i s c i' s' c')
  case Eps show ?case by auto
next
  case Bol show ?case by auto
next
  case Eol show ?case by auto
next
  case (Atom a) show ?case by (cases s) auto
next
  case (Seq r1 r2)
  show ?case
  proof
    assume "(i', s', c') \<in> set (ms ic (Seq r1 r2) (i, s, c))"
    then obtain i1 s1 c1 where a: "(i1, s1, c1) \<in> set (ms ic r1 (i, s, c))"
      and b: "(i', s', c') \<in> set (ms ic r2 (i1, s1, c1))" by auto
    from a Seq.IH(1) obtain p1 where p1: "s = p1 @ s1" "i1 = i + length p1" "Mt ic r1 i p1 s1 c c1" by blast
    from b Seq.IH(2) obtain p2 where p2: "s1 = p2 @ s'" "i' = i1 + length p2" "Mt ic r2 i1 p2 s' c1 c'" by blast
    from p1 p2 show "\<exists>pre. s = pre @ s' \<and> i' = i + length pre \<and> Mt ic (Seq r1 r2) i pre s' c c'"
      by (intro exI [of _ "p1 @ p2"]) auto
  next
    assume "\<exists>pre. s = pre @ s' \<and> i' = i + length pre \<and> Mt ic (Seq r1 r2) i pre s' c c'"
    then obtain p1 p2 c1 where s: "s = p1 @ p2 @ s'" and i': "i' = i + length p1 + length p2"
      and m1: "Mt ic r1 i p1 (p2 @ s') c c1" and m2: "Mt ic r2 (i + length p1) p2 s' c1 c'" by auto
    from s m1 Seq.IH(1) have "(i + length p1, p2 @ s', c1) \<in> set (ms ic r1 (i, s, c))" by blast
    moreover from m2 i' Seq.IH(2) have "(i', s', c') \<in> set (ms ic r2 (i + length p1, p2 @ s', c1))" by blast
    ultimately show "(i', s', c') \<in> set (ms ic (Seq r1 r2) (i, s, c))" by auto
  qed
next
  case (Opt r)
  then show ?case by auto
next
  case (Rep a lo hi)
  show ?case
  proof
    assume "(i', s', c') \<in> set (ms ic (Rep a lo hi) (i, s, c))"
    then obtain k where k: "i' = i + k" "s' = drop k s" "c' = c" "lo \<le> k" "k \<le> length s"
        "list_all (am ic a) (take k s)" "(case hi of None \<Rightarrow> True | Some h \<Rightarrow> k \<le> h)"
      unfolding ms_Rep_mem by blast
    then show "\<exists>pre. s = pre @ s' \<and> i' = i + length pre \<and> Mt ic (Rep a lo hi) i pre s' c c'"
      by (intro exI [of _ "take k s"]) (auto simp: min_def split: option.splits)
  next
    assume "\<exists>pre. s = pre @ s' \<and> i' = i + length pre \<and> Mt ic (Rep a lo hi) i pre s' c c'"
    then obtain pre where "s = pre @ s'" "i' = i + length pre" "Mt ic (Rep a lo hi) i pre s' c c'" by blast
    then show "(i', s', c') \<in> set (ms ic (Rep a lo hi) (i, s, c))"
      unfolding ms_Rep_mem by (auto intro!: exI [of _ "length pre"])
  qed
next
  case (Grp g r)
  show ?case
  proof
    assume "(i', s', c') \<in> set (ms ic (Grp g r) (i, s, c))"
    then obtain c1 where a: "(i', s', c1) \<in> set (ms ic r (i, s, c))" and c': "c' = c1[g := Some (take (i' - i) s)]"
      by auto
    from a Grp.IH obtain pre where "s = pre @ s'" "i' = i + length pre" "Mt ic r i pre s' c c1" by blast
    with c' show "\<exists>pre. s = pre @ s' \<and> i' = i + length pre \<and> Mt ic (Grp g r) i pre s' c c'"
      by (intro exI [of _ pre]) auto
  next
    assume "\<exists>pre. s = pre @ s' \<and> i' = i + length pre \<and> Mt ic (Grp g r) i pre s' c c'"
    then obtain pre c1 where p: "s = pre @ s'" "i' = i + length pre" "Mt ic r i pre s' c c1" "c' = c1[g := Some pre]"
      by auto
    with Grp.IH have "(i', s', c1) \<in> set (ms ic r (i, s, c))" by blast
    with p show "(i', s', c') \<in> set (ms ic (Grp g r) (i, s, c))" by force
  qed
qed

lemma to_upper_eq:
  "to_upper m = to_upper c \<longleftrightarrow>
     (if is_lower m then (if is_lower c then m = c else (of_char c :: nat) = of_char m - 32)
      else (if is_lower c then (of_char m :: nat) = of_char c - 32 else m = c))"
proof -
  have up: "to_upper m = to_upper c \<longleftrightarrow> (of_char (to_upper m) :: nat) = of_char (to_upper c)" by simp
  have mc: "m = c \<longleftrightarrow> (of_char m :: nat) = of_char c" by simp
  show ?thesis
    unfolding up mc of_char_to_upper is_lower_def less_eq_char_def
    by (simp del: of_char_eq_iff) linarith
qed

lemma range_lower_ic:
  assumes "CHR ''a'' \<le> lo" "hi \<le> CHR ''z''"
  shows "(\<exists>m. lo \<le> m \<and> m \<le> hi \<and> to_upper m = to_upper c) \<longleftrightarrow>
           (lo \<le> c \<and> c \<le> hi) \<or> (of_char lo - 32 \<le> (of_char c :: nat) \<and> (of_char c :: nat) \<le> of_char hi - 32)"
proof
  assume "\<exists>m. lo \<le> m \<and> m \<le> hi \<and> to_upper m = to_upper c"
  then obtain m where m: "lo \<le> m" "m \<le> hi" "to_upper m = to_upper c" by blast
  with assms have lm: "is_lower m" by (auto simp: is_lower_def)
  from m(3) lm have "(if is_lower c then m = c else (of_char c :: nat) = of_char m - 32)"
    by (simp add: to_upper_eq)
  with m(1,2) show "(lo \<le> c \<and> c \<le> hi) \<or> (of_char lo - 32 \<le> (of_char c :: nat) \<and> (of_char c :: nat) \<le> of_char hi - 32)"
    by (auto simp: less_eq_char_def split: if_splits)
next
  assume a: "(lo \<le> c \<and> c \<le> hi) \<or> (of_char lo - 32 \<le> (of_char c :: nat) \<and> (of_char c :: nat) \<le> of_char hi - 32)"
  show "\<exists>m. lo \<le> m \<and> m \<le> hi \<and> to_upper m = to_upper c"
  proof (cases "lo \<le> c \<and> c \<le> hi")
    case True then show ?thesis by blast
  next
    case False
    with a have b: "of_char lo - 32 \<le> (of_char c :: nat)" "(of_char c :: nat) \<le> of_char hi - 32" by auto
    let ?m = "char_of (of_char c + 32 :: nat) :: char"
    from assms have lh: "97 \<le> (of_char lo :: nat)" "(of_char hi :: nat) \<le> 122" by (auto simp: less_eq_char_def)
    with b have om: "(of_char ?m :: nat) = of_char c + 32" by simp
    from b lh om have r: "lo \<le> ?m" "?m \<le> hi" unfolding less_eq_char_def by linarith+
    with assms have lm: "is_lower ?m" by (auto simp: is_lower_def)
    from b lh have "(of_char c :: nat) \<le> 90" by linarith
    then have nl: "\<not> is_lower c" by (simp add: is_lower_def less_eq_char_def)
    have "to_upper ?m = to_upper c" unfolding to_upper_eq using lm nl om by simp
    with r show ?thesis by blast
  qed
qed

lemma range_digit_ic:
  "(\<exists>m. CHR ''0'' \<le> m \<and> m \<le> CHR ''9'' \<and> to_upper m = to_upper c) \<longleftrightarrow> is_digit c"
proof
  assume "\<exists>m. CHR ''0'' \<le> m \<and> m \<le> CHR ''9'' \<and> to_upper m = to_upper c"
  then obtain m where m: "CHR ''0'' \<le> m" "m \<le> CHR ''9''" "to_upper m = to_upper c" by blast
  then show "is_digit c"
    by (auto simp: to_upper_eq is_digit_def is_lower_def less_eq_char_def split: if_splits)
next
  assume "is_digit c" then show "\<exists>m. CHR ''0'' \<le> m \<and> m \<le> CHR ''9'' \<and> to_upper m = to_upper c"
    by (auto simp: is_digit_def)
qed

lemma one_ic: "\<not> is_lower p \<Longrightarrow> \<not> is_upper p \<Longrightarrow> to_upper p = to_upper c \<longleftrightarrow> c = p"
  by (auto simp: to_upper_eq is_lower_def is_upper_def less_eq_char_def)

lemma am_Cls: "am True (Cls items) c \<longleftrightarrow> list_ex (\<lambda>it. \<exists>m \<in> set (members it). to_upper m = to_upper c) items"
  by (auto simp: canon_def list_ex_iff)

lemma range_az: "(\<exists>m. CHR ''a'' \<le> m \<and> m \<le> CHR ''z'' \<and> to_upper m = to_upper c) \<longleftrightarrow> is_lower c \<or> is_upper c"
  by (subst range_lower_ic) (auto simp: is_lower_def is_upper_def less_eq_char_def)

lemma range_af: "(\<exists>m. CHR ''a'' \<le> m \<and> m \<le> CHR ''f'' \<and> to_upper m = to_upper c) \<longleftrightarrow>
   (CHR ''a'' \<le> c \<and> c \<le> CHR ''f'') \<or> (CHR ''A'' \<le> c \<and> c \<le> CHR ''F'')"
  by (subst range_lower_ic) (auto simp: less_eq_char_def)

lemma mem_Range: "(\<exists>m \<in> set (members (Range lo hi)). to_upper m = to_upper c) \<longleftrightarrow> (\<exists>m. lo \<le> m \<and> m \<le> hi \<and> to_upper m = to_upper c)"
  by (auto simp: set_chars)

lemma mem_One: "(\<exists>m \<in> set (members (One p)). to_upper m = to_upper c) \<longleftrightarrow> to_upper p = to_upper c"
  by simp

lemma one_dot: "to_upper CHR ''.'' = to_upper c \<longleftrightarrow> c = CHR ''.''"
  by (rule one_ic) (simp_all add: is_lower_def is_upper_def)
lemma one_dash: "to_upper CHR ''-'' = to_upper c \<longleftrightarrow> c = CHR ''-''"
  by (rule one_ic) (simp_all add: is_lower_def is_upper_def)
lemma one_slash: "to_upper CHR ''/'' = to_upper c \<longleftrightarrow> c = CHR ''/''"
  by (rule one_ic) (simp_all add: is_lower_def is_upper_def)
lemma one_colon: "to_upper CHR '':'' = to_upper c \<longleftrightarrow> c = CHR '':''"
  by (rule one_ic) (simp_all add: is_lower_def is_upper_def)

lemmas cls_simps = am_Cls list_ex_Nil_iff list_ex_Cons_iff mem_Range mem_One range_az range_af range_digit_ic
  one_dot one_dash one_slash one_colon

lemma am_alnum: "am True alnum c \<longleftrightarrow> is_alnum c"
  unfolding alnum_def is_alnum_def by (simp only: cls_simps) blast

lemma am_letter: "am True letter c \<longleftrightarrow> is_lower c \<or> is_upper c"
  unfolding letter_def by (simp only: cls_simps) blast

lemma am_hex: "am True hex c \<longleftrightarrow> is_hex c"
  unfolding hex_def is_hex_def by (simp only: cls_simps) blast

lemma am_alnum_dash: "am True alnum_dash c \<longleftrightarrow> is_alnum c \<or> c = CHR ''-''"
  unfolding alnum_dash_def is_alnum_def by (simp only: cls_simps) blast

lemma am_alnum_dot_dash: "am True alnum_dot_dash c \<longleftrightarrow> is_alnum c \<or> c = CHR ''.'' \<or> c = CHR ''-''"
  unfolding alnum_dot_dash_def is_alnum_def by (simp only: cls_simps) blast

lemma am_alnum_slash_dash: "am True alnum_slash_dash c \<longleftrightarrow> is_alnum c \<or> c = CHR ''/'' \<or> c = CHR ''-''"
  unfolding alnum_slash_dash_def is_alnum_def by (simp only: cls_simps) blast

lemma am_slash: "am True (Chr CHR ''/'') c \<longleftrightarrow> c = CHR ''/''"
  by (simp add: canon_def one_slash)
lemma am_dash: "am True (Chr CHR ''-'') c \<longleftrightarrow> c = CHR ''-''"
  by (simp add: canon_def one_dash)
lemma am_colon: "am True (Chr CHR '':'') c \<longleftrightarrow> c = CHR '':''"
  by (simp add: canon_def one_colon)

lemma cat_Nil: "cat [] = Eps" by (simp add: cat_def)
lemma cat_Cons: "cat (r # rs) = Seq r (cat rs)" by (simp add: cat_def)
lemma lit_Nil: "lit [] = Eps" by (simp add: lit_def cat_def)
lemma lit_Cons: "lit (x # xs) = Seq (Atom (Chr x)) (lit xs)" by (simp add: lit_def cat_def)

lemma Mt_Seq_Atom:
  "Mt ic (Seq (Atom a) r) i pre s' c c' \<longleftrightarrow>
     (\<exists>x p2. pre = x # p2 \<and> am ic a x \<and> Mt ic r (Suc i) p2 s' c c')"
proof
  assume "Mt ic (Seq (Atom a) r) i pre s' c c'"
  then show "\<exists>x p2. pre = x # p2 \<and> am ic a x \<and> Mt ic r (Suc i) p2 s' c c'" by auto
next
  assume "\<exists>x p2. pre = x # p2 \<and> am ic a x \<and> Mt ic r (Suc i) p2 s' c c'"
  then obtain x p2 where "pre = [x] @ p2" "am ic a x" "Mt ic r (i + length [x]) p2 s' c c'" by auto
  then show "Mt ic (Seq (Atom a) r) i pre s' c c'"
    unfolding Mt.simps by (intro exI [of _ "[x]"] exI [of _ p2] exI [of _ c]) simp
qed

lemma Mt_Seq_Eps: "Mt ic (Seq r Eps) i pre s' c c' \<longleftrightarrow> Mt ic r i pre s' c c'"
  by auto

lemma Mt_lit: "Mt True (lit str) i pre s' c c' \<longleftrightarrow> ci_eq str pre \<and> c' = c"
proof (induction str arbitrary: i pre)
  case Nil show ?case by (auto simp: lit_Nil ci_eq_def)
next
  case (Cons x xs)
  show ?case unfolding lit_Cons Mt_Seq_Atom Cons.IH
    by (cases pre) (auto simp: ci_eq_def canon_def)
qed

lemma Mt_star: "Mt ic (star a) i pre s' c c' \<longleftrightarrow> list_all (am ic a) pre \<and> c' = c"
  by (simp add: star_def)

lemma Mt_exactly: "Mt ic (exactly a n) i pre s' c c' \<longleftrightarrow> list_all (am ic a) pre \<and> length pre = n \<and> c' = c"
  by (auto simp: exactly_def)

lemma seg_shape:
  assumes "\<And>x. is_alnum x \<Longrightarrow> P x"
  shows "(\<exists>a mid b. pre = a # mid @ [b] \<and> is_alnum a \<and> list_all P mid \<and> is_alnum b) \<longleftrightarrow>
     (2 \<le> length pre \<and> is_alnum (hd pre) \<and> is_alnum (last pre) \<and> list_all P pre)"
proof
  assume "\<exists>a mid b. pre = a # mid @ [b] \<and> is_alnum a \<and> list_all P mid \<and> is_alnum b"
  then show "2 \<le> length pre \<and> is_alnum (hd pre) \<and> is_alnum (last pre) \<and> list_all P pre"
    using assms by auto
next
  assume a: "2 \<le> length pre \<and> is_alnum (hd pre) \<and> is_alnum (last pre) \<and> list_all P pre"
  then obtain x xs where p: "pre = x # xs" "xs \<noteq> []" by (cases pre) (auto simp: Suc_le_eq)
  then have "pre = x # butlast xs @ [last xs]" by simp
  moreover from a p have "is_alnum x" "is_alnum (last xs)" "list_all P (butlast xs)"
    by (auto simp: list_all_iff dest: in_set_butlastD)
  ultimately show "\<exists>a mid b. pre = a # mid @ [b] \<and> is_alnum a \<and> list_all P mid \<and> is_alnum b" by blast
qed

lemma Mt_seg:
  "Mt True (cat [Atom alnum, star X, Atom alnum]) i pre s' c c' \<longleftrightarrow>
     (\<exists>a mid b. pre = a # mid @ [b] \<and> is_alnum a \<and> list_all (am True X) mid \<and> is_alnum b) \<and> c' = c"
proof -
  have "Mt True (Seq (star X) (Atom alnum)) j p t c c' \<longleftrightarrow>
      (\<exists>mid b. p = mid @ [b] \<and> list_all (am True X) mid \<and> is_alnum b) \<and> c' = c" for j p t
    by (auto simp: Mt_star am_alnum)
  then show ?thesis unfolding cat_Cons cat_Nil Mt_Seq_Eps Mt_Seq_Atom am_alnum by auto
qed

lemma Mt_registry:
  "Mt True (Grp g registry_rx) i pre s' c c' \<longleftrightarrow>
     registry_ok pre \<and> c' = c[g := Some pre]"
proof -
  have *: "(\<exists>a mid b. pre = a # mid @ [b] \<and> is_alnum a \<and> list_all (am True alnum_dot_dash) mid \<and> is_alnum b)
      \<longleftrightarrow> registry_ok pre"
    unfolding registry_ok_def am_alnum_dot_dash by (rule seg_shape) simp
  show ?thesis unfolding Mt.simps registry_rx_def Mt_seg * by auto
qed

lemma Mt_slug:
  "Mt True (Grp g slug) i pre s' c c' \<longleftrightarrow> slug_ok pre \<and> c' = c[g := Some pre]"
proof -
  have *: "(\<exists>a mid b. pre = a # mid @ [b] \<and> is_alnum a \<and> list_all (am True alnum_dash) mid \<and> is_alnum b)
      \<longleftrightarrow> slug_ok pre"
    unfolding slug_ok_def am_alnum_dash by (rule seg_shape) simp
  show ?thesis unfolding Mt.simps slug_def Mt_seg * by auto
qed

lemma split_at_iff:
  "(\<exists>p1 p2. pre = p1 @ p2 \<and> length p1 = n \<and> P p1 p2) \<longleftrightarrow> (n \<le> length pre \<and> P (take n pre) (drop n pre))"
proof
  assume "\<exists>p1 p2. pre = p1 @ p2 \<and> length p1 = n \<and> P p1 p2"
  then show "n \<le> length pre \<and> P (take n pre) (drop n pre)" by auto
next
  assume "n \<le> length pre \<and> P (take n pre) (drop n pre)"
  then show "\<exists>p1 p2. pre = p1 @ p2 \<and> length p1 = n \<and> P p1 p2"
    by (intro exI [of _ "take n pre"] exI [of _ "drop n pre"]) simp
qed

lemma Mt_Seq_times:
  "Mt True (Seq (exactly hex n) r) i pre s' c c' \<longleftrightarrow>
     (n \<le> length pre \<and> list_all is_hex (take n pre) \<and> Mt True r (i + n) (drop n pre) s' c c')"
proof -
  have "Mt True (Seq (exactly hex n) r) i pre s' c c' \<longleftrightarrow>
     (\<exists>p1 p2. pre = p1 @ p2 \<and> length p1 = n \<and> (list_all is_hex p1 \<and> Mt True r (i + n) p2 s' c c'))"
    by (auto simp: Mt_exactly am_hex list_all_iff)
  then show ?thesis unfolding split_at_iff .
qed

lemma ci_eq_single: "\<not> is_lower p \<Longrightarrow> \<not> is_upper p \<Longrightarrow> ci_eq [p] q \<longleftrightarrow> q = [p]"
  by (auto simp: ci_eq_def list_all2_Cons1 one_ic)

lemma ci_eq_dash: "ci_eq ''-'' q \<longleftrightarrow> q = ''-''"
  by (rule ci_eq_single) (simp_all add: is_lower_def is_upper_def)
lemma ci_eq_slash: "ci_eq ''/'' q \<longleftrightarrow> q = ''/''"
  by (rule ci_eq_single) (simp_all add: is_lower_def is_upper_def)
lemma ci_eq_colon: "ci_eq '':'' q \<longleftrightarrow> q = '':''"
  by (rule ci_eq_single) (simp_all add: is_lower_def is_upper_def)

lemma Mt_Seq_lit:
  "Mt True (Seq (lit str) r) i pre s' c c' \<longleftrightarrow>
     (\<exists>p1 p2. pre = p1 @ p2 \<and> ci_eq str p1 \<and> Mt True r (i + length p1) p2 s' c c')"
  unfolding Mt.simps(5) Mt_lit by auto

lemma Mt_Seq_dash:
  "Mt True (Seq (lit ''-'') r) i pre s' c c' \<longleftrightarrow>
     (pre \<noteq> [] \<and> hd pre = CHR ''-'' \<and> Mt True r (Suc i) (tl pre) s' c c')"
  unfolding Mt_Seq_lit ci_eq_dash by (cases pre) auto

lemma Mt_uuid_tail:
  "Mt True (cat [lit ''-'', exactly hex 4, lit ''-'', exactly hex 4, lit ''-'', exactly hex 4, lit ''-'', exactly hex 12])
      i pre s' c c' \<longleftrightarrow> fits uuid_tail pre \<and> c' = c"
  by (simp only: cat_Cons cat_Nil Mt_Seq_dash Mt_Seq_times uuid_tail_def fits.simps Mt.simps(1)) auto

lemma Mt_deviceId:
  "Mt True (Grp 4 deviceId_rx) i pre s' c c' \<longleftrightarrow> deviceId_ok pre \<and> c' = c[4 := Some pre]"
proof -
  have "Mt True (cat [exactly hex 8,
       Opt (cat [lit ''-'', exactly hex 4, lit ''-'', exactly hex 4, lit ''-'', exactly hex 4, lit ''-'', exactly hex 12])])
      i pre s' c c1 \<longleftrightarrow> deviceId_ok pre \<and> c1 = c" for c1
    by (simp only: cat_Cons [of "exactly hex 8"] cat_Cons [of "Opt _"] cat_Nil Mt_Seq_Eps Mt_Seq_times
      Mt.simps(6) Mt_uuid_tail deviceId_ok_def fits.simps) auto
  then show ?thesis unfolding deviceId_rx_def by auto
qed

lemma Mt_port:
  "Mt True port_rx i pre s' c c' \<longleftrightarrow>
     (pre = [] \<and> c' = c) \<or> (\<exists>ds. pre = CHR '':'' # ds \<and> port_text_ok ds \<and> c' = c[5 := Some ds])"
proof -
  have "Mt True (Grp 5 (Rep Digit 1 (Some 5))) j p t c c' \<longleftrightarrow> port_text_ok p \<and> c' = c[5 := Some p]" for j p t
    by (auto simp: port_text_ok_def list_all_iff)
  then show ?thesis
    by (simp only: port_rx_def cat_Cons cat_Nil Mt_Seq_Eps Mt_Seq_lit ci_eq_colon Mt.simps(6)) auto
qed

lemma Mt_cap_body:
  "Mt True (cat [Opt (lit ''/''), Atom letter, star alnum_slash_dash]) i pre s' c c' \<longleftrightarrow>
     cap_text_ok pre \<and> c' = c"
proof -
  have body: "Mt True (cat [Atom letter, star alnum_slash_dash]) j p t a b \<longleftrightarrow> capability_ok p \<and> b = a" for j p t a b
    unfolding cat_Cons cat_Nil Mt_Seq_Eps Mt_Seq_Atom Mt_star am_letter am_alnum_slash_dash capability_ok_def
    by (cases p) auto
  have nsl: "capability_ok p \<Longrightarrow> \<not> startsWith p ''/''" for p
    by (cases p) (auto simp: capability_ok_def startsWith_def is_lower_def is_upper_def)
  show ?thesis
  proof
    assume "Mt True (cat [Opt (lit ''/''), Atom letter, star alnum_slash_dash]) i pre s' c c'"
    then obtain p1 p2 c1 where p: "pre = p1 @ p2" "Mt True (Opt (lit ''/'')) i p1 (p2 @ s') c c1"
        "Mt True (cat [Atom letter, star alnum_slash_dash]) (i + length p1) p2 s' c1 c'"
      unfolding cat_Cons [of "Opt _"] Mt.simps(5) by blast
    from p(3) have b: "capability_ok p2" "c' = c1" unfolding body by auto
    from p(2) have "(p1 = ''/'' \<or> p1 = []) \<and> c1 = c"
      unfolding Mt.simps(6) Mt_lit ci_eq_slash by (auto simp: lit_Nil)
    with p(1) b nsl [OF b(1)] show "cap_text_ok pre \<and> c' = c"
      by (auto simp: cap_text_ok_def startsWith_def)
  next
    assume a: "cap_text_ok pre \<and> c' = c"
    show "Mt True (cat [Opt (lit ''/''), Atom letter, star alnum_slash_dash]) i pre s' c c'"
    proof (cases "startsWith pre ''/''")
      case True
      then have pre: "pre = ''/'' @ drop 1 pre" by (cases pre) (auto simp: startsWith_def)
      from a True have "capability_ok (drop 1 pre)" by (simp add: cap_text_ok_def)
      then have "Mt True (cat [Atom letter, star alnum_slash_dash]) (i + length ''/'') (drop 1 pre) s' c c'"
        using a unfolding body by simp
      moreover have "Mt True (Opt (lit ''/'')) i ''/'' (drop 1 pre @ s') c c"
        unfolding Mt.simps(6) Mt_lit ci_eq_slash by simp
      ultimately show ?thesis unfolding cat_Cons [of "Opt _"] Mt.simps(5) using pre by blast
    next
      case False
      with a have "capability_ok pre" by (simp add: cap_text_ok_def)
      then have "Mt True (cat [Atom letter, star alnum_slash_dash]) (i + length '''') pre s' c c'"
        using a unfolding body by simp
      moreover have "Mt True (Opt (lit ''/'')) i [] (pre @ s') c c"
        unfolding Mt.simps(6) by simp
      ultimately show ?thesis unfolding cat_Cons [of "Opt _"] Mt.simps(5)
        by (intro exI [of _ "[]"] exI [of _ pre] exI [of _ c]) simp
    qed
  qed
qed

lemma Mt_cap:
  "Mt True capability_rx i pre s' c c' \<longleftrightarrow>
     (pre = [] \<and> c' = c) \<or> (cap_text_ok pre \<and> c' = c[6 := Some pre])"
  unfolding capability_rx_def Mt.simps(6) Mt.simps(8) Mt_cap_body by auto

lemma T12: "Mt True (cat [Eol]) i pre s' c c' \<longleftrightarrow> pre = [] \<and> s' = [] \<and> c' = c"
  by (auto simp: cat_Cons cat_Nil)

lemma T11: "Mt True (cat [capability_rx, Eol]) i pre [] c c' \<longleftrightarrow>
    (\<exists>cg. pre = cap_text cg \<and> cg_ok cg \<and> c' = upd 6 cg c)"
proof -
  have "Mt True (cat [capability_rx, Eol]) i pre [] c c' \<longleftrightarrow>
     (pre = [] \<and> c' = c) \<or> (cap_text_ok pre \<and> c' = c[6 := Some pre])"
    unfolding cat_Cons [of capability_rx] Mt.simps(5) Mt_cap T12 by auto
  also have "\<dots> \<longleftrightarrow> (\<exists>cg. pre = cap_text cg \<and> cg_ok cg \<and> c' = upd 6 cg c)"
  proof
    assume "(pre = [] \<and> c' = c) \<or> (cap_text_ok pre \<and> c' = c[6 := Some pre])"
    then show "\<exists>cg. pre = cap_text cg \<and> cg_ok cg \<and> c' = upd 6 cg c"
    proof
      assume "pre = [] \<and> c' = c"
      then show ?thesis by (intro exI [of _ None]) (simp add: cap_text_def cg_ok_def upd_def)
    next
      assume "cap_text_ok pre \<and> c' = c[6 := Some pre]"
      then show ?thesis by (intro exI [of _ "Some pre"]) (simp add: cap_text_def cg_ok_def upd_def)
    qed
  next
    assume "\<exists>cg. pre = cap_text cg \<and> cg_ok cg \<and> c' = upd 6 cg c"
    then obtain cg where "pre = cap_text cg" "cg_ok cg" "c' = upd 6 cg c" by blast
    then show "(pre = [] \<and> c' = c) \<or> (cap_text_ok pre \<and> c' = c[6 := Some pre])"
      by (cases cg) (auto simp: cap_text_def cg_ok_def upd_def)
  qed
  finally show ?thesis .
qed

lemma Mt_port': "Mt True port_rx i pre s' c c' \<longleftrightarrow> (\<exists>pg. pre = port_text pg \<and> pg_ok pg \<and> c' = upd 5 pg c)"
proof
  assume "Mt True port_rx i pre s' c c'"
  then have "(pre = [] \<and> c' = c) \<or> (\<exists>ds. pre = CHR '':'' # ds \<and> port_text_ok ds \<and> c' = c[5 := Some ds])"
    unfolding Mt_port .
  then show "\<exists>pg. pre = port_text pg \<and> pg_ok pg \<and> c' = upd 5 pg c"
  proof
    assume "pre = [] \<and> c' = c"
    then show ?thesis by (intro exI [of _ None]) (simp add: port_text_def pg_ok_def upd_def)
  next
    assume "\<exists>ds. pre = CHR '':'' # ds \<and> port_text_ok ds \<and> c' = c[5 := Some ds]"
    then obtain ds where "pre = CHR '':'' # ds \<and> port_text_ok ds \<and> c' = c[5 := Some ds]" ..
    then show ?thesis by (intro exI [of _ "Some ds"]) (simp add: port_text_def pg_ok_def upd_def)
  qed
next
  assume "\<exists>pg. pre = port_text pg \<and> pg_ok pg \<and> c' = upd 5 pg c"
  then obtain pg where "pre = port_text pg" "pg_ok pg" "c' = upd 5 pg c" by blast
  then show "Mt True port_rx i pre s' c c'"
    unfolding Mt_port by (cases pg) (auto simp: port_text_def pg_ok_def upd_def)
qed

lemma T10: "Mt True (cat [port_rx, capability_rx, Eol]) i pre [] c c' \<longleftrightarrow>
    (\<exists>pg cg. pre = port_text pg @ cap_text cg \<and> pg_ok pg \<and> cg_ok cg \<and> c' = upd 6 cg (upd 5 pg c))"
  unfolding cat_Cons [of port_rx] Mt.simps(5) Mt_port' append_Nil2 T11 by blast

lemma T9: "Mt True (cat [Grp 4 deviceId_rx, port_rx, capability_rx, Eol]) i pre [] c c' \<longleftrightarrow>
    (\<exists>dev pg cg. pre = dev @ port_text pg @ cap_text cg \<and> deviceId_ok dev \<and> pg_ok pg \<and> cg_ok cg
       \<and> c' = upd 6 cg (upd 5 pg (c[4 := Some dev])))"
  unfolding cat_Cons [of "Grp 4 deviceId_rx"] Mt.simps(5) Mt_deviceId append_Nil2 T10 by blast

lemma T8: "Mt True (cat [lit ''/'', Grp 4 deviceId_rx, port_rx, capability_rx, Eol]) i pre [] c c' \<longleftrightarrow>
    (\<exists>dev pg cg. pre = ''/'' @ dev @ port_text pg @ cap_text cg \<and> deviceId_ok dev \<and> pg_ok pg \<and> cg_ok cg
       \<and> c' = upd 6 cg (upd 5 pg (c[4 := Some dev])))"
  unfolding cat_Cons [of "lit ''/''"] Mt.simps(5) Mt_lit ci_eq_slash append_Nil2 T9 by blast

lemma T7: "Mt True (cat [Grp 3 slug, lit ''/'', Grp 4 deviceId_rx, port_rx, capability_rx, Eol]) i pre [] c c' \<longleftrightarrow>
    (\<exists>mdl dev pg cg. pre = mdl @ ''/'' @ dev @ port_text pg @ cap_text cg \<and> slug_ok mdl
       \<and> deviceId_ok dev \<and> pg_ok pg \<and> cg_ok cg
       \<and> c' = upd 6 cg (upd 5 pg (c[3 := Some mdl, 4 := Some dev])))"
  unfolding cat_Cons [of "Grp 3 slug"] Mt.simps(5) Mt_slug append_Nil2 T8 by blast

lemma T6: "Mt True (cat [lit ''/'', Grp 3 slug, lit ''/'', Grp 4 deviceId_rx, port_rx, capability_rx, Eol]) i pre [] c c' \<longleftrightarrow>
    (\<exists>mdl dev pg cg. pre = ''/'' @ mdl @ ''/'' @ dev @ port_text pg @ cap_text cg \<and> slug_ok mdl
       \<and> deviceId_ok dev \<and> pg_ok pg \<and> cg_ok cg
       \<and> c' = upd 6 cg (upd 5 pg (c[3 := Some mdl, 4 := Some dev])))"
  unfolding cat_Cons [of "lit ''/''"] Mt.simps(5) Mt_lit ci_eq_slash append_Nil2 T7 by blast

lemma T5: "Mt True (cat [Grp 2 slug, lit ''/'', Grp 3 slug, lit ''/'', Grp 4 deviceId_rx, port_rx, capability_rx, Eol]) i pre [] c c' \<longleftrightarrow>
    (\<exists>man mdl dev pg cg. pre = man @ ''/'' @ mdl @ ''/'' @ dev @ port_text pg @ cap_text cg
       \<and> slug_ok man \<and> slug_ok mdl
       \<and> deviceId_ok dev \<and> pg_ok pg \<and> cg_ok cg
       \<and> c' = upd 6 cg (upd 5 pg (c[2 := Some man, 3 := Some mdl, 4 := Some dev])))"
  unfolding cat_Cons [of "Grp 2 slug"] Mt.simps(5) Mt_slug append_Nil2 T6 by blast

lemma T4: "Mt True (cat [lit ''/'', Grp 2 slug, lit ''/'', Grp 3 slug, lit ''/'', Grp 4 deviceId_rx, port_rx, capability_rx, Eol]) i pre [] c c' \<longleftrightarrow>
    (\<exists>man mdl dev pg cg. pre = ''/'' @ man @ ''/'' @ mdl @ ''/'' @ dev @ port_text pg @ cap_text cg
       \<and> slug_ok man \<and> slug_ok mdl
       \<and> deviceId_ok dev \<and> pg_ok pg \<and> cg_ok cg
       \<and> c' = upd 6 cg (upd 5 pg (c[2 := Some man, 3 := Some mdl, 4 := Some dev])))"
  unfolding cat_Cons [of "lit ''/''"] Mt.simps(5) Mt_lit ci_eq_slash append_Nil2 T5 by blast

lemma T3: "Mt True (cat [Grp 1 registry_rx, lit ''/'', Grp 2 slug, lit ''/'', Grp 3 slug, lit ''/'', Grp 4 deviceId_rx, port_rx, capability_rx, Eol]) i pre [] c c' \<longleftrightarrow>
    (\<exists>reg man mdl dev pg cg. pre = reg @ ''/'' @ man @ ''/'' @ mdl @ ''/'' @ dev @ port_text pg @ cap_text cg
       \<and> registry_ok reg \<and> slug_ok man \<and> slug_ok mdl
       \<and> deviceId_ok dev \<and> pg_ok pg \<and> cg_ok cg
       \<and> c' = upd 6 cg (upd 5 pg (c[1 := Some reg, 2 := Some man, 3 := Some mdl, 4 := Some dev])))"
  unfolding cat_Cons [of "Grp 1 registry_rx"] Mt.simps(5) Mt_registry append_Nil2 T4 by blast

lemma T2: "Mt True (cat [lit ''rcan://'', Grp 1 registry_rx, lit ''/'', Grp 2 slug, lit ''/'', Grp 3 slug, lit ''/'', Grp 4 deviceId_rx, port_rx, capability_rx, Eol]) i pre [] c c' \<longleftrightarrow>
    (\<exists>sch reg man mdl dev pg cg. pre = sch @ reg @ ''/'' @ man @ ''/'' @ mdl @ ''/'' @ dev @ port_text pg @ cap_text cg
       \<and> ci_eq ''rcan://'' sch \<and> registry_ok reg \<and> slug_ok man \<and> slug_ok mdl
       \<and> deviceId_ok dev \<and> pg_ok pg \<and> cg_ok cg
       \<and> c' = upd 6 cg (upd 5 pg (c[1 := Some reg, 2 := Some man, 3 := Some mdl, 4 := Some dev])))"
  unfolding cat_Cons [of "lit ''rcan://''"] Mt.simps(5) Mt_lit append_Nil2 T3
  apply (rule iffI)
   apply (elim exE conjE)
   apply hypsubst
   apply (intro exI conjI; (rule refl | assumption))
  apply (elim exE conjE)
  apply hypsubst
  apply (intro exI conjI; (rule refl | assumption))
  done

lemma upd_concrete:
  "upd 6 cg (upd 5 pg ([None, None, None, None, None, None, None][1 := Some reg, 2 := Some man, 3 := Some mdl, 4 := Some dev]))
    = [None, Some reg, Some man, Some mdl, Some dev, pg, cg]"
  by (cases pg; cases cg) (simp_all add: upd_def)

lemma Mt_RURI:
  "Mt True RURI_REGEX 0 s [] [None, None, None, None, None, None, None] c' \<longleftrightarrow>
     (\<exists>sch reg man mdl dev pg cg. s = ruri_text sch reg man mdl dev pg cg
        \<and> ruri_ok sch reg man mdl dev pg cg
        \<and> c' = [None, Some reg, Some man, Some mdl, Some dev, pg, cg])"
proof -
  have "Mt True RURI_REGEX 0 s [] [None, None, None, None, None, None, None] c' \<longleftrightarrow>
     Mt True (cat [lit ''rcan://'', Grp 1 registry_rx, lit ''/'', Grp 2 slug, lit ''/'', Grp 3 slug, lit ''/'',
        Grp 4 deviceId_rx, port_rx, capability_rx, Eol]) 0 s [] [None, None, None, None, None, None, None] c'"
    unfolding RURI_REGEX_def cat_Cons [of Bol] Mt.simps(5) Mt.simps(2) by simp
  then show ?thesis
    unfolding T2 upd_concrete ruri_text_def ruri_ok_def by simp
qed

lemma match_from_None: "(\<forall>k \<in> set ks. ms ic r (k, drop k s, replicate (Suc ng) None) = []) \<Longrightarrow> match_from ic r ng s ks = None"
  by (induction ks) auto

lemma ms_RURI_nonzero: "k \<noteq> 0 \<Longrightarrow> ms True RURI_REGEX (k, t, c) = []"
  by (simp add: RURI_REGEX_def cat_Cons)

lemma match_RURI_ms:
  "match_RURI s = (case ms True RURI_REGEX (0, s, replicate 7 None) of
      [] \<Rightarrow> None | (i', s', c') # _ \<Rightarrow> Some (c'[0 := Some (take i' s)]))"
proof -
  have ks: "[0 ..< Suc (length s)] = 0 # [1 ..< Suc (length s)]" by (simp add: upt_rec)
  have rest: "match_from True RURI_REGEX 6 s [1 ..< Suc (length s)] = None"
  proof (rule match_from_None, rule ballI)
    fix k assume "k \<in> set [1 ..< Suc (length s)]"
    then have "k \<noteq> 0" by auto
    then show "ms True RURI_REGEX (k, drop k s, replicate (Suc 6) None) = []" by (rule ms_RURI_nonzero)
  qed
  show ?thesis
    unfolding match_RURI_def match_def ks match_from.simps rest
    by (simp add: numeral_eq_Suc split: list.splits)
qed

lemma Mt_cat_Eol: "Mt ic (cat (rs @ [Eol])) i pre s' c c' \<Longrightarrow> s' = []"
  by (induction rs arbitrary: i pre c) (auto simp: cat_Cons cat_Nil)

lemma Mt_RURI_end: "Mt True RURI_REGEX i pre s' c c' \<Longrightarrow> s' = []"
proof -
  have "RURI_REGEX = cat ([Bol, lit ''rcan://'', Grp 1 registry_rx, lit ''/'', Grp 2 slug, lit ''/'',
      Grp 3 slug, lit ''/'', Grp 4 deviceId_rx, port_rx, capability_rx] @ [Eol])"
    by (simp add: RURI_REGEX_def)
  then show "Mt True RURI_REGEX i pre s' c c' \<Longrightarrow> s' = []"
    using Mt_cat_Eol by metis
qed

lemma ci_eq_length: "ci_eq a b \<Longrightarrow> length b = length a"
  by (simp add: ci_eq_def list_all2_lengthD)

lemma not_alnum_slash: "\<not> is_alnum CHR ''/''"
  by (simp add: is_alnum_def is_lower_def is_upper_def is_digit_def)

lemma registry_no_slash: "registry_ok r \<Longrightarrow> CHR ''/'' \<notin> set r"
  using not_alnum_slash by (auto simp: registry_ok_def list_all_iff)

lemma slug_no_slash: "slug_ok r \<Longrightarrow> CHR ''/'' \<notin> set r"
  using not_alnum_slash by (auto simp: slug_ok_def list_all_iff)

lemma fits_length_uuid: "fits (Hx 8 # uuid_tail) d \<Longrightarrow> length d = 36 \<and> d ! 8 = CHR ''-''"
  by (auto simp: uuid_tail_def hd_drop_conv_nth dest!: arg_cong [where f = length])

lemma fits_length_8: "fits [Hx 8] d \<Longrightarrow> length d = 8"
  by (auto dest!: arg_cong [where f = length])

lemma cap_text_first: "cap_text_ok t \<Longrightarrow> t \<noteq> [] \<and> (hd t = CHR ''/'' \<or> is_lower (hd t) \<or> is_upper (hd t))"
  by (cases t) (auto simp: cap_text_ok_def capability_ok_def startsWith_def split: if_splits)

lemma tail_start: "pg_ok pg \<Longrightarrow> cg_ok cg \<Longrightarrow> tail_start_ok (port_text pg @ cap_text cg)"
  by (cases pg; cases cg) (auto simp: tail_start_ok_def port_text_def cap_text_def cg_ok_def dest: cap_text_first)

lemma tail_not_dash: "tail_start_ok t \<Longrightarrow> t \<noteq> [] \<Longrightarrow> hd t \<noteq> CHR ''-''"
  by (auto simp: tail_start_ok_def is_lower_def is_upper_def less_eq_char_def)

lemma dev_unique:
  assumes "d @ t = d' @ t'" "deviceId_ok d" "deviceId_ok d'" "tail_start_ok t" "tail_start_ok t'"
  shows "d = d' \<and> t = t'"
proof -
  have aux: "a = b \<and> u = v" if eq: "a @ u = b @ v" and la: "length a = 8" and lb: "length b = 36" "b ! 8 = CHR ''-''"
     and u: "tail_start_ok u" for a b u v :: string
  proof -
    from eq have "drop 8 (a @ u) = drop 8 (b @ v)" by simp
    with la lb have u': "u = drop 8 b @ v" by simp
    with lb have "u \<noteq> []" by auto
    moreover from u' lb have "hd u = b ! 8" by (simp add: hd_append hd_drop_conv_nth)
    ultimately show ?thesis using tail_not_dash [OF u] lb by simp
  qed
  from assms(2) have ld: "length d = 8 \<or> (length d = 36 \<and> d ! 8 = CHR ''-'')"
    unfolding deviceId_ok_def using fits_length_8 fits_length_uuid by blast
  from assms(3) have ld': "length d' = 8 \<or> (length d' = 36 \<and> d' ! 8 = CHR ''-'')"
    unfolding deviceId_ok_def using fits_length_8 fits_length_uuid by blast
  show ?thesis
  proof (cases "length d = length d'")
    case True with assms(1) show ?thesis by simp
  next
    case False
    with ld ld' consider "length d = 8" "length d' = 36" "d' ! 8 = CHR ''-''"
      | "length d' = 8" "length d = 36" "d ! 8 = CHR ''-''" by auto
    then show ?thesis
    proof cases
      case 1 with aux [OF assms(1) _ _ _ assms(4)] show ?thesis by simp
    next
      case 2 with aux [OF assms(1) [symmetric] _ _ _ assms(5)] show ?thesis by auto
    qed
  qed
qed

lemma takeWhile_run: "list_all P ds \<Longrightarrow> ct = [] \<or> \<not> P (hd ct) \<Longrightarrow> takeWhile P (ds @ ct) = ds"
  by (cases ct) (auto simp: list_all_iff takeWhile_append)

lemma cap_start_not_digit: "cg_ok cg \<Longrightarrow> cap_text cg = [] \<or> \<not> is_digit (hd (cap_text cg))"
  by (cases cg) (auto simp: cg_ok_def cap_text_def is_digit_def is_lower_def is_upper_def less_eq_char_def dest!: cap_text_first)

lemma cap_start_not_colon: "cg_ok cg \<Longrightarrow> cap_text cg = [] \<or> hd (cap_text cg) \<noteq> CHR '':''"
  by (cases cg) (auto simp: cg_ok_def cap_text_def is_lower_def is_upper_def less_eq_char_def dest!: cap_text_first)

lemma cap_text_inj: "cg_ok cg \<Longrightarrow> cg_ok cg' \<Longrightarrow> cap_text cg = cap_text cg' \<Longrightarrow> cg = cg'"
  by (cases cg; cases cg') (auto simp: cg_ok_def cap_text_def dest: cap_text_first)

lemma tail_unique:
  assumes "port_text pg @ cap_text cg = port_text pg' @ cap_text cg'" "pg_ok pg" "pg_ok pg'" "cg_ok cg" "cg_ok cg'"
  shows "pg = pg' \<and> cg = cg'"
proof -
  have none_some: False if "cap_text g = CHR '':'' # ds @ cap_text g'" "cg_ok g" for g g' ds
    using cap_start_not_colon [OF that(2)] that(1) by auto
  show ?thesis
  proof (cases pg)
    case None
    show ?thesis
    proof (cases pg')
      case n: None
      with None assms show ?thesis by (auto simp: port_text_def intro: cap_text_inj)
    next
      case (Some ds')
      with None assms(1) have "cap_text cg = CHR '':'' # ds' @ cap_text cg'" by (simp add: port_text_def)
      with none_some assms(4) show ?thesis by blast
    qed
  next
    case (Some ds)
    show ?thesis
    proof (cases pg')
      case None
      with Some assms(1) have "cap_text cg' = CHR '':'' # ds @ cap_text cg" by (simp add: port_text_def)
      with none_some assms(5) show ?thesis by blast
    next
      case s': (Some ds')
      from Some s' assms(1) have eq: "ds @ cap_text cg = ds' @ cap_text cg'" by (simp add: port_text_def)
      from Some assms(2) have d: "list_all is_digit ds" by (simp add: pg_ok_def port_text_ok_def)
      from s' assms(3) have d': "list_all is_digit ds'" by (simp add: pg_ok_def port_text_ok_def)
      have "ds = takeWhile is_digit (ds @ cap_text cg)"
        using takeWhile_run [OF d cap_start_not_digit [OF assms(4)]] by simp
      also have "\<dots> = takeWhile is_digit (ds' @ cap_text cg')" using eq by simp
      also have "\<dots> = ds'" using takeWhile_run [OF d' cap_start_not_digit [OF assms(5)]] by simp
      finally have "ds = ds'" .
      with eq Some s' assms(4,5) show ?thesis by (auto intro: cap_text_inj)
    qed
  qed
qed

lemma split_sep: "x \<notin> set a \<Longrightarrow> x \<notin> set b \<Longrightarrow> a @ x # u = b @ x # v \<Longrightarrow> a = b \<and> u = v"
proof (induction a arbitrary: b)
  case Nil
  then show ?case by (cases b) auto
next
  case (Cons y ys)
  then show ?case by (cases b) auto
qed

lemma ruri_unique:
  assumes "ruri_text sch reg man mdl dev pg cg = ruri_text sch' reg' man' mdl' dev' pg' cg'"
    and "ruri_ok sch reg man mdl dev pg cg" and "ruri_ok sch' reg' man' mdl' dev' pg' cg'"
  shows "sch = sch' \<and> reg = reg' \<and> man = man' \<and> mdl = mdl' \<and> dev = dev' \<and> pg = pg' \<and> cg = cg'"
proof -
  from assms(2,3) have l: "length sch = length sch'"
    by (auto simp: ruri_ok_def dest!: ci_eq_length)
  with assms(1) have 1: "sch = sch'"
    and r1: "reg @ CHR ''/'' # (man @ CHR ''/'' # (mdl @ CHR ''/'' # (dev @ port_text pg @ cap_text cg)))
           = reg' @ CHR ''/'' # (man' @ CHR ''/'' # (mdl' @ CHR ''/'' # (dev' @ port_text pg' @ cap_text cg')))"
    by (auto simp: ruri_text_def)
  from assms(2,3) have ns: "CHR ''/'' \<notin> set reg" "CHR ''/'' \<notin> set reg'" "CHR ''/'' \<notin> set man" "CHR ''/'' \<notin> set man'"
      "CHR ''/'' \<notin> set mdl" "CHR ''/'' \<notin> set mdl'"
    by (auto simp: ruri_ok_def dest: registry_no_slash slug_no_slash)
  from split_sep [OF ns(1,2) r1] have 2: "reg = reg'"
    and r2: "man @ CHR ''/'' # (mdl @ CHR ''/'' # (dev @ port_text pg @ cap_text cg))
           = man' @ CHR ''/'' # (mdl' @ CHR ''/'' # (dev' @ port_text pg' @ cap_text cg'))"
    by simp_all
  from split_sep [OF ns(3,4) r2] have 3: "man = man'"
    and r3: "mdl @ CHR ''/'' # (dev @ port_text pg @ cap_text cg)
           = mdl' @ CHR ''/'' # (dev' @ port_text pg' @ cap_text cg')"
    by simp_all
  from split_sep [OF ns(5,6) r3] have 4: "mdl = mdl'"
    and r4: "dev @ (port_text pg @ cap_text cg) = dev' @ (port_text pg' @ cap_text cg')"
    by simp_all
  from assms(2,3) have oks: "deviceId_ok dev" "deviceId_ok dev'" "pg_ok pg" "pg_ok pg'" "cg_ok cg" "cg_ok cg'"
    by (simp_all add: ruri_ok_def pg_ok_def cg_ok_def)
  from dev_unique [OF r4 oks(1,2) tail_start [OF oks(3,5)] tail_start [OF oks(4,6)]]
  have 5: "dev = dev'" and r5: "port_text pg @ cap_text cg = port_text pg' @ cap_text cg'" by simp_all
  from tail_unique [OF r5 oks(3,4,5,6)] 1 2 3 4 5 show ?thesis by simp
qed

theorem match_RURI_accept:
  assumes "ruri_ok sch reg man mdl dev pg cg"
  shows "match_RURI (ruri_text sch reg man mdl dev pg cg) =
           Some [Some (ruri_text sch reg man mdl dev pg cg), Some reg, Some man, Some mdl, Some dev, pg, cg]"
proof -
  let ?s = "ruri_text sch reg man mdl dev pg cg"
  let ?init = "[None, None, None, None, None, None, None] :: captures"
  let ?c = "[None, Some reg, Some man, Some mdl, Some dev, pg, cg]"
  have c0: "replicate 7 None = ?init" by (simp add: numeral_eq_Suc)
  have "\<exists>sch' reg' man' mdl' dev' pg' cg'. ?s = ruri_text sch' reg' man' mdl' dev' pg' cg'
        \<and> ruri_ok sch' reg' man' mdl' dev' pg' cg'
        \<and> ?c = [None, Some reg', Some man', Some mdl', Some dev', pg', cg']"
  proof (intro exI conjI)
    show "?s = ruri_text sch reg man mdl dev pg cg" by (rule refl)
    show "ruri_ok sch reg man mdl dev pg cg" by (rule assms)
    show "?c = [None, Some reg, Some man, Some mdl, Some dev, pg, cg]" by (rule refl)
  qed
  then have "Mt True RURI_REGEX 0 ?s [] ?init ?c" unfolding Mt_RURI .
  then have mem: "(length ?s, [], ?c) \<in> set (ms True RURI_REGEX (0, ?s, ?init))"
    unfolding ms_iff by simp
  then obtain x xs where L: "ms True RURI_REGEX (0, ?s, ?init) = x # xs"
    by (cases "ms True RURI_REGEX (0, ?s, ?init)") auto
  obtain i' s' c' where x: "x = (i', s', c')" by (cases x)
  from L x have "(i', s', c') \<in> set (ms True RURI_REGEX (0, ?s, ?init))" by simp
  then obtain pre where p: "?s = pre @ s'" "i' = length pre" "Mt True RURI_REGEX 0 pre s' ?init c'"
    unfolding ms_iff by auto
  from Mt_RURI_end [OF p(3)] have s': "s' = []" .
  with p have "Mt True RURI_REGEX 0 ?s [] ?init c'" and i': "i' = length ?s" by simp_all
  then obtain sch' reg' man' mdl' dev' pg' cg' where
    d: "?s = ruri_text sch' reg' man' mdl' dev' pg' cg'" "ruri_ok sch' reg' man' mdl' dev' pg' cg'"
       "c' = [None, Some reg', Some man', Some mdl', Some dev', pg', cg']"
    unfolding Mt_RURI by blast
  from ruri_unique [OF d(1) assms d(2)] d(3) have "c' = ?c" by simp
  with L x i' show ?thesis unfolding match_RURI_ms c0 by simp
qed

theorem match_RURI_sound:
  assumes "match_RURI s = Some m"
  shows "\<exists>sch reg man mdl dev pg cg. s = ruri_text sch reg man mdl dev pg cg
     \<and> ruri_ok sch reg man mdl dev pg cg
     \<and> m = [Some s, Some reg, Some man, Some mdl, Some dev, pg, cg]"
proof -
  let ?init = "[None, None, None, None, None, None, None] :: captures"
  have c0: "replicate 7 None = ?init" by (simp add: numeral_eq_Suc)
  from assms obtain i' s' c' xs where L: "ms True RURI_REGEX (0, s, ?init) = (i', s', c') # xs"
    and m: "m = c'[0 := Some (take i' s)]"
    unfolding match_RURI_ms c0 by (auto split: list.splits)
  from L have "(i', s', c') \<in> set (ms True RURI_REGEX (0, s, ?init))" by simp
  then obtain pre where p: "s = pre @ s'" "i' = length pre" "Mt True RURI_REGEX 0 pre s' ?init c'"
    unfolding ms_iff by auto
  from Mt_RURI_end [OF p(3)] have s': "s' = []" .
  with p have "Mt True RURI_REGEX 0 s [] ?init c'" and i': "i' = length s" by simp_all
  then obtain sch reg man mdl dev pg cg where
    d: "s = ruri_text sch reg man mdl dev pg cg" "ruri_ok sch reg man mdl dev pg cg"
       "c' = [None, Some reg, Some man, Some mdl, Some dev, pg, cg]"
    unfolding Mt_RURI by blast
  from d(3) m i' have "m = [Some s, Some reg, Some man, Some mdl, Some dev, pg, cg]" by simp
  with d show ?thesis by blast
qed

subsection \<open>Decimal text\<close>

lemma digit_chr_digit: "d < 10 \<Longrightarrow> is_digit (digit_chr d) \<and> digit_val (digit_chr d) = d"
  by (simp add: is_digit_def digit_chr_def digit_val_def less_eq_char_def)

lemma toString_digits: "list_all is_digit (toString n) \<and> toString n \<noteq> []"
proof (induction n rule: toString.induct)
  case (1 n)
  show ?case
  proof (cases "n < 10")
    case True
    then show ?thesis by (subst toString.simps, subst toString.simps) (simp add: digit_chr_digit)
  next
    case False
    with 1 have "list_all is_digit (toString (n div 10))" by simp
    moreover have "is_digit (digit_chr (n mod 10))" by (simp add: digit_chr_digit)
    ultimately show ?thesis using False by (subst toString.simps, subst toString.simps) simp
  qed
qed

lemma digits_value_toString: "foldl (\<lambda>n d. 10 * n + digit_val d) 0 (toString n) = n"
proof (induction n rule: toString.induct)
  case (1 n)
  show ?case
  proof (cases "n < 10")
    case True
    then show ?thesis by (subst toString.simps) (simp add: digit_chr_digit)
  next
    case False
    with 1 have "foldl (\<lambda>n d. 10 * n + digit_val d) 0 (toString (n div 10)) = n div 10" by simp
    then show ?thesis using False by (subst toString.simps) (simp add: digit_chr_digit)
  qed
qed

lemma takeWhile_all: "list_all P xs \<Longrightarrow> takeWhile P xs = xs"
  by (simp add: list_all_iff)

lemma parseInt_toString: "parseInt (toString n) = Some n"
  using toString_digits [of n]
  by (simp add: parseInt_def takeWhile_all digits_value_toString)

lemma length_toString: "n < 10 ^ k \<Longrightarrow> 0 < k \<Longrightarrow> length (toString n) \<le> k"
proof (induction n arbitrary: k rule: toString.induct)
  case (1 n)
  show ?case
  proof (cases "n < 10")
    case True
    then show ?thesis using "1.prems" by (subst toString.simps) simp
  next
    case False
    with "1.prems" obtain j where k: "k = Suc j" by (cases k) auto
    with False "1.prems" have "0 < j" by (cases j) auto
    moreover from k "1.prems" have "n div 10 < 10 ^ j" by (simp add: less_mult_imp_div_less mult.commute)
    ultimately have "length (toString (n div 10)) \<le> j" using 1 False by simp
    then show ?thesis using False k by (subst toString.simps) simp
  qed
qed

lemma port_text_toString: "1 \<le> p \<Longrightarrow> p \<le> 65535 \<Longrightarrow> port_text_ok (toString p)"
proof -
  assume "1 \<le> p" "p \<le> 65535"
  then have "p < 10 ^ 5" by simp
  then have "length (toString p) \<le> 5" by (rule length_toString) simp
  moreover have "1 \<le> length (toString p)" using toString_digits [of p] by (cases "toString p") auto
  ultimately show ?thesis using toString_digits [of p] by (simp add: port_text_ok_def)
qed

subsection \<open>Whitespace and trimming\<close>

lemma is_ws_code: "is_ws c \<longleftrightarrow> (of_char c :: nat) \<in> {9, 10, 11, 12, 13, 32, 160}"
proof -
  have e: "c = d \<longleftrightarrow> (of_char c :: nat) = of_char d" for d by simp
  show ?thesis unfolding is_ws_def list.set insert_iff empty_iff e by simp
qed

lemma ws_upper: "is_ws (to_upper c) = is_ws c"
  unfolding is_ws_code of_char_to_upper
  by (auto simp: is_lower_def less_eq_char_def)

lemma alnum_not_ws: "is_alnum c \<Longrightarrow> \<not> is_ws c"
  unfolding is_ws_code by (auto simp: is_alnum_def is_lower_def is_upper_def is_digit_def less_eq_char_def)

lemma hex_alnum: "is_hex c \<Longrightarrow> is_alnum c"
  by (auto simp: is_hex_def is_alnum_def is_lower_def is_upper_def less_eq_char_def)

lemma gch_not_ws: "gch c \<Longrightarrow> \<not> is_ws c"
  unfolding gch_def using alnum_not_ws by (auto simp: is_ws_def)

lemma fits_gch: "fits ps d \<Longrightarrow> list_all gch d"
proof (induction ps d rule: fits.induct)
  case (1 s) then show ?case by simp
next
  case (2 n ps s)
  then have "list_all gch (take n s)" "list_all gch (drop n s)"
    by (auto simp: list_all_iff gch_def dest: hex_alnum)
  then have "list_all gch (take n s @ drop n s)" by (simp only: list_all_append)
  then show ?case by simp
next
  case (3 ps s)
  then show ?case by (cases s) (auto simp: gch_def)
qed

lemma upper_letter: "is_lower p \<Longrightarrow> to_upper p = to_upper x \<Longrightarrow> is_lower x \<or> is_upper x"
  using range_az [of x] by (auto simp: is_lower_def)

lemma scheme_gch: "ci_eq ''rcan://'' sch \<Longrightarrow> list_all gch sch"
  by (auto simp: ci_eq_def list_all2_Cons1 gch_def is_alnum_def one_colon one_slash
      dest!: upper_letter [rotated] simp: is_lower_def)

lemma capability_gch: "capability_ok c \<Longrightarrow> list_all gch c"
  by (cases c) (auto simp: capability_ok_def gch_def is_alnum_def list_all_iff)

lemma cap_text_gch: "cap_text_ok t \<Longrightarrow> list_all gch t"
proof -
  assume a: "cap_text_ok t"
  show ?thesis
  proof (cases "startsWith t ''/''")
    case True
    then have t: "t = CHR ''/'' # drop 1 t" by (cases t) (auto simp: startsWith_def)
    from a True have "list_all gch (drop 1 t)" by (simp add: cap_text_ok_def capability_gch)
    then have "list_all gch (CHR ''/'' # drop 1 t)" by (simp add: gch_def)
    with t show ?thesis by simp
  next
    case False
    with a show ?thesis by (simp add: cap_text_ok_def capability_gch)
  qed
qed

lemma ruri_text_gch:
  assumes "ruri_ok sch reg man mdl dev pg cg"
  shows "list_all gch (ruri_text sch reg man mdl dev pg cg)"
proof -
  from assms have "list_all gch sch" by (simp add: ruri_ok_def scheme_gch)
  moreover from assms have "list_all gch reg" "list_all gch man" "list_all gch mdl"
    by (auto simp: ruri_ok_def registry_ok_def slug_ok_def gch_def list_all_iff)
  moreover from assms have "fits [Hx 8] dev \<or> fits (Hx 8 # uuid_tail) dev"
    by (simp only: ruri_ok_def deviceId_ok_def)
  then have "list_all gch dev" using fits_gch by blast
  moreover from assms have "list_all gch (port_text pg)"
    by (cases pg) (auto simp: ruri_ok_def pg_ok_def port_text_def port_text_ok_def gch_def is_alnum_def list_all_iff)
  moreover have "list_all gch (cap_text cg)"
  proof (cases cg)
    case None then show ?thesis by (simp add: cap_text_def)
  next
    case (Some t)
    with assms have "cap_text_ok t" by (simp add: ruri_ok_def cg_ok_def)
    then have "list_all gch t" by (rule cap_text_gch)
    with Some show ?thesis by (simp add: cap_text_def)
  qed
  ultimately show ?thesis by (simp add: ruri_text_def gch_def)
qed

lemma trim_no_ws: "list_all (\<lambda>c. \<not> is_ws c) s \<Longrightarrow> trim s = s"
proof -
  assume a: "list_all (\<lambda>c. \<not> is_ws c) s"
  then have "dropWhile is_ws s = s" by (cases s) auto
  moreover from a have "dropWhile is_ws (rev s) = rev s" by (cases "rev s") (auto simp: list_all_iff)
  ultimately show ?thesis by (simp add: trim_def)
qed

lemma trim_ruri_text:
  "ruri_ok sch reg man mdl dev pg cg \<Longrightarrow> trim (ruri_text sch reg man mdl dev pg cg) = ruri_text sch reg man mdl dev pg cg"
proof (rule trim_no_ws)
  assume "ruri_ok sch reg man mdl dev pg cg"
  then have "list_all gch (ruri_text sch reg man mdl dev pg cg)" by (rule ruri_text_gch)
  then show "list_all (\<lambda>c. \<not> is_ws c) (ruri_text sch reg man mdl dev pg cg)"
    using gch_not_ws by (simp add: list_all_iff)
qed


lemma dropWhile_id: "xs = [] \<or> \<not> P (hd xs) \<Longrightarrow> dropWhile P xs = xs"
  by (cases xs) auto

lemma trim_idem: "trim (trim s) = trim s"
proof -
  let ?a = "dropWhile is_ws s"
  let ?b = "dropWhile is_ws (rev ?a)"
  have b: "?b = [] \<or> \<not> is_ws (hd ?b)" by (metis hd_dropWhile)
  have "?a = [] \<or> \<not> is_ws (hd ?a)" by (metis hd_dropWhile)
  have l: "rev ?b = [] \<or> \<not> is_ws (hd (rev ?b))"
  proof (cases "?b = []")
    case True then show ?thesis by simp
  next
    case False
    have ne: "?a \<noteq> []"
    proof
      assume "?a = []"
      then have "?b = []" by (simp only: rev.simps dropWhile.simps)
      with False show False ..
    qed
    then have nh: "\<not> is_ws (hd ?a)" by (metis hd_dropWhile)
    from False obtain pre where "rev ?a = pre @ ?b" by (metis takeWhile_dropWhile_id)
    then have "?a = rev ?b @ rev pre" by (metis rev_append rev_rev_ident)
    with False have "hd (rev ?b) = hd ?a" by (metis hd_append2 rev_is_Nil_conv)
    with nh show ?thesis by simp
  qed
  then have A: "dropWhile is_ws (rev ?b) = rev ?b" by (rule dropWhile_id)
  from b have B: "dropWhile is_ws ?b = ?b" by (rule dropWhile_id)
  show ?thesis unfolding trim_def A rev_rev_ident B ..
qed

lemma startsWith_append: "startsWith (p @ s) p"
  by (simp add: startsWith_def)

lemma ruri_text_nonempty: "ruri_ok sch reg man mdl dev pg cg \<Longrightarrow> ruri_text sch reg man mdl dev pg cg \<noteq> []"
  by (auto simp: ruri_text_def)

lemma grp_caps:
  "grp [a0, a1, a2, a3, a4, a5, a6] 1 = a1" "grp [a0, a1, a2, a3, a4, a5, a6] (Suc 0) = a1"
  "grp [a0, a1, a2, a3, a4, a5, a6] 2 = a2"
  "grp [a0, a1, a2, a3, a4, a5, a6] 3 = a3" "grp [a0, a1, a2, a3, a4, a5, a6] 4 = a4"
  "grp [a0, a1, a2, a3, a4, a5, a6] 5 = a5" "grp [a0, a1, a2, a3, a4, a5, a6] 6 = a6"
  by (simp_all add: grp_def)

lemma parsed_of_caps:
  "parsed_of t [Some w, Some reg, Some man, Some mdl, Some dev, pg, cg] =
     \<lparr> registry = reg, manufacturer = man, model = mdl, deviceId = dev, port = port_of pg,
       capability = strip_capability cg, raw = t \<rparr>"
  by (simp add: parsed_of_def grp_caps str_of_def)

lemma parseRURI_sync_text:
  assumes "ruri_ok sch reg man mdl dev pg cg"
  shows "parseRURI_sync (ruri_text sch reg man mdl dev pg cg) =
     Some \<lparr> registry = reg, manufacturer = man, model = mdl, deviceId = dev, port = port_of pg,
            capability = strip_capability cg, raw = ruri_text sch reg man mdl dev pg cg \<rparr>"
  by (simp add: parseRURI_sync_def trim_ruri_text [OF assms] match_RURI_accept [OF assms] parsed_of_caps)

lemma parseRURI_text:
  assumes ok: "ruri_ok ''rcan://'' reg man mdl dev pg cg"
    and rng: "case port_of pg of None \<Rightarrow> True | Some n \<Rightarrow> 1 \<le> n \<and> n \<le> 65535"
  shows "parseRURI (ruri_text ''rcan://'' reg man mdl dev pg cg) =
     \<lparr> valid = True, error = None,
       parsed = Some \<lparr> registry = reg, manufacturer = man, model = mdl, deviceId = dev, port = port_of pg,
            capability = strip_capability cg, raw = ruri_text ''rcan://'' reg man mdl dev pg cg \<rparr> \<rparr>"
proof -
  let ?s = "ruri_text ''rcan://'' reg man mdl dev pg cg"
  have sw: "startsWith ?s ''rcan://''" unfolding ruri_text_def by (rule startsWith_append)
  have ne: "?s \<noteq> []" by (simp add: ruri_text_def)
  show ?thesis
    using rng
    by (simp add: parseRURI_def ne trim_ruri_text [OF ok] sw match_RURI_accept [OF ok] grp_caps parsed_of_caps
        split: option.splits)
qed

lemma parseRURI_text_port_range:
  assumes ok: "ruri_ok ''rcan://'' reg man mdl dev pg cg"
    and rng: "port_of pg = Some n" "n < 1 \<or> n > 65535"
  shows "parseRURI (ruri_text ''rcan://'' reg man mdl dev pg cg) =
     \<lparr> valid = False, error = Some ''Port must be between 1 and 65535'', parsed = None \<rparr>"
proof -
  let ?s = "ruri_text ''rcan://'' reg man mdl dev pg cg"
  have sw: "startsWith ?s ''rcan://''" unfolding ruri_text_def by (rule startsWith_append)
  have ne: "?s \<noteq> []" by (simp add: ruri_text_def)
  show ?thesis
    using rng
    by (simp add: parseRURI_def ne trim_ruri_text [OF ok] sw match_RURI_accept [OF ok] grp_caps)
qed

lemma scheme_exact:
  assumes "ci_eq ''rcan://'' sch" "startsWith (sch @ rest) ''rcan://''"
  shows "sch = ''rcan://''"
proof -
  from assms(1) have "length sch = 7" by (simp add: ci_eq_def list_all2_lengthD [symmetric])
  with assms(2) show ?thesis by (simp add: startsWith_def)
qed

lemma parseRURI_valid_D:
  assumes "valid (parseRURI s)"
  shows "\<exists>reg man mdl dev pg cg. s \<noteq> [] \<and> trim s = ruri_text ''rcan://'' reg man mdl dev pg cg
     \<and> ruri_ok ''rcan://'' reg man mdl dev pg cg
     \<and> (case port_of pg of None \<Rightarrow> True | Some n \<Rightarrow> 1 \<le> n \<and> n \<le> 65535)
     \<and> parsed (parseRURI s) = Some \<lparr> registry = reg, manufacturer = man, model = mdl, deviceId = dev,
            port = port_of pg, capability = strip_capability cg, raw = trim s \<rparr>"
proof -
  from assms have ne: "s \<noteq> []" by (auto simp: parseRURI_def)
  from assms ne have sw: "startsWith (trim s) ''rcan://''" by (auto simp: parseRURI_def Let_def split: if_splits)
  from assms ne sw obtain m where m: "match_RURI (trim s) = Some m"
    by (auto simp: parseRURI_def Let_def split: option.splits)
  from match_RURI_sound [OF m] obtain sch reg man mdl dev pg cg where
    d: "trim s = ruri_text sch reg man mdl dev pg cg" "ruri_ok sch reg man mdl dev pg cg"
       "m = [Some (trim s), Some reg, Some man, Some mdl, Some dev, pg, cg]" by blast
  from d(2) have "ci_eq ''rcan://'' sch" by (simp add: ruri_ok_def)
  moreover from sw d(1) have "startsWith (sch @ (reg @ ''/'' @ man @ ''/'' @ mdl @ ''/'' @ dev @ port_text pg @ cap_text cg)) ''rcan://''"
    by (simp add: ruri_text_def)
  ultimately have sch: "sch = ''rcan://''" by (rule scheme_exact)
  from assms ne sw m d(3) have rng: "case port_of pg of None \<Rightarrow> True | Some n \<Rightarrow> 1 \<le> n \<and> n \<le> 65535"
    by (auto simp: parseRURI_def Let_def grp_caps split: option.splits if_splits)
  from assms ne sw m d(3) have "parsed (parseRURI s) = Some (parsed_of (trim s) m)"
    by (auto simp: parseRURI_def Let_def grp_caps split: option.splits if_splits)
  with d(3) have "parsed (parseRURI s) = Some \<lparr> registry = reg, manufacturer = man, model = mdl, deviceId = dev,
            port = port_of pg, capability = strip_capability cg, raw = trim s \<rparr>"
    by (simp add: parsed_of_caps)
  with ne d sch rng show ?thesis by blast
qed





lemmas char_kind_defs = is_alnum_def is_lower_def is_upper_def is_digit_def is_hex_def

lemmas grammar_defs = ruri_ok_def ci_eq_def registry_ok_def slug_ok_def deviceId_ok_def uuid_tail_def
  pg_ok_def cg_ok_def port_text_ok_def cap_text_ok_def capability_ok_def startsWith_def char_kind_defs

lemma ex_ok: "ruri_ok ''rcan://'' ''example.com'' ''acme'' ''arm-bot'' ''deadbeef'' None None"
  by (simp add: grammar_defs)

lemma ex_ok_cap: "ruri_ok ''rcan://'' ''example.com'' ''acme'' ''arm-bot'' ''deadbeef'' None (Some ''grasp'')"
  by (simp add: grammar_defs)

lemma ex_ok_uuid: "ruri_ok ''rcan://'' ''example.com'' ''acme'' ''arm-bot'' ''deadbeef-1234-5678-9abc-def012345678'' (Some ''8080'') (Some ''/arm/grasp'')"
  by (simp add: grammar_defs)

lemma ex_text: "ruri_text ''rcan://'' ''example.com'' ''acme'' ''arm-bot'' ''deadbeef'' None (Some ''grasp'') = ''rcan://example.com/acme/arm-bot/deadbeefgrasp''"
  by (simp add: ruri_text_def port_text_def cap_text_def)

lemma parseInt_8080: "parseInt ''8080'' = Some 8080"
  by (simp add: parseInt_def is_digit_def digit_val_def)


subsection \<open>Building and parsing again\<close>

lemma buildRURI_text:
  assumes "valid_parts c"
  shows "buildRURI c = ruri_text ''rcan://'' (registry c) (manufacturer c) (model c) (deviceId c)
           (map_option toString (port c)) (map_option (\<lambda>t. CHR ''/'' # t) (capability c))"
proof -
  from assms have p: "port c \<noteq> Some 0" by (auto simp: valid_parts_def)
  from assms have t: "capability c \<noteq> Some []" by (auto simp: valid_parts_def capability_ok_def)
  from p t show ?thesis
    by (cases "port c"; cases "capability c") (simp_all add: buildRURI_def ruri_text_def port_text_def cap_text_def)
qed

lemma valid_parts_ok:
  assumes "valid_parts c"
  shows "ruri_ok ''rcan://'' (registry c) (manufacturer c) (model c) (deviceId c)
           (map_option toString (port c)) (map_option (\<lambda>t. CHR ''/'' # t) (capability c))"
proof -
  have "ci_eq ''rcan://'' ''rcan://''" by (simp add: ci_eq_def)
  moreover from assms have "pg_ok (map_option toString (port c))"
    by (cases "port c") (auto simp: valid_parts_def pg_ok_def port_text_toString)
  moreover from assms have "cg_ok (map_option (\<lambda>t. CHR ''/'' # t) (capability c))"
    by (cases "capability c") (auto simp: valid_parts_def cg_ok_def cap_text_ok_def startsWith_def)
  ultimately show ?thesis using assms by (simp add: ruri_ok_def valid_parts_def)
qed

lemma port_of_toString: "port_of (map_option toString p) = p"
  using toString_digits by (cases p) (auto simp: port_of_def parseInt_toString)

lemma strip_capability_slash: "capability_ok t \<Longrightarrow> strip_capability (Some (CHR ''/'' # t)) = Some t"
  by (simp add: strip_capability_def startsWith_def capability_ok_def)

lemma parse_build:
  assumes "valid_parts c"
  shows "parseRURI (buildRURI c) =
     \<lparr> valid = True, error = None,
       parsed = Some \<lparr> registry = registry c, manufacturer = manufacturer c, model = model c,
                       deviceId = deviceId c, port = port c, capability = capability c,
                       raw = buildRURI c \<rparr> \<rparr>"
proof -
  let ?pg = "map_option toString (port c)"
  let ?cg = "map_option (\<lambda>t. CHR ''/'' # t) (capability c)"
  from assms have rng: "case port_of ?pg of None \<Rightarrow> True | Some n \<Rightarrow> 1 \<le> n \<and> n \<le> 65535"
    unfolding port_of_toString by (simp add: valid_parts_def)
  from assms have cap: "strip_capability ?cg = capability c"
    by (cases "capability c") (auto simp: valid_parts_def strip_capability_slash, simp add: strip_capability_def)
  show ?thesis
    unfolding buildRURI_text [OF assms]
    using parseRURI_text [OF valid_parts_ok [OF assms] rng]
    by (simp add: port_of_toString cap)
qed

lemma parsed_valid_parts:
  assumes "parsed (parseRURI s) = Some p"
  shows "valid_parts p"
proof -
  from assms have "valid (parseRURI s)"
    by (auto simp: parseRURI_def Let_def split: if_splits option.splits)
  from parseRURI_valid_D [OF this] assms obtain reg man mdl dev pg cg where
    ok: "ruri_ok ''rcan://'' reg man mdl dev pg cg"
    and rng: "case port_of pg of None \<Rightarrow> True | Some n \<Rightarrow> 1 \<le> n \<and> n \<le> 65535"
    and p: "p = \<lparr> registry = reg, manufacturer = man, model = mdl, deviceId = dev,
            port = port_of pg, capability = strip_capability cg, raw = trim s \<rparr>" by auto
  have "case strip_capability cg of None \<Rightarrow> True | Some t \<Rightarrow> capability_ok t"
    using ok by (cases cg) (auto simp: ruri_ok_def cg_ok_def cap_text_ok_def strip_capability_def Let_def)
  with ok rng p show ?thesis by (simp add: valid_parts_def ruri_ok_def)
qed

subsection \<open>A slug of one character\<close>

lemma ci_eq_same_length: "ci_eq a b \<Longrightarrow> length a = length b"
  by (simp add: ci_eq_def list_all2_lengthD)

lemma no_single_letter_match: "match_RURI ''rcan://tesla.com/tesla/x/deadbeef'' = None"
proof (rule ccontr)
  assume "match_RURI ''rcan://tesla.com/tesla/x/deadbeef'' \<noteq> None"
  then obtain m where "match_RURI ''rcan://tesla.com/tesla/x/deadbeef'' = Some m" by blast
  from match_RURI_sound [OF this] obtain sch reg man mdl dev pg cg
    where e: "''rcan://tesla.com/tesla/x/deadbeef'' = ruri_text sch reg man mdl dev pg cg"
      and ok: "ruri_ok sch reg man mdl dev pg cg" by blast
  from ok have l: "length ''rcan://'' = length sch"
    by (simp only: ruri_ok_def ci_eq_same_length)
  have "''rcan://'' @ ''tesla.com/tesla/x/deadbeef''
      = sch @ (reg @ CHR ''/'' # (man @ CHR ''/'' # (mdl @ CHR ''/'' # (dev @ port_text pg @ cap_text cg))))"
    using e by (simp add: ruri_text_def)
  from append_eq_append_conv [OF disjI1 [OF l], THEN iffD1, OF this]
  have r1: "''tesla.com'' @ CHR ''/'' # ''tesla/x/deadbeef''
      = reg @ CHR ''/'' # (man @ CHR ''/'' # (mdl @ CHR ''/'' # (dev @ port_text pg @ cap_text cg)))"
    by simp
  from ok have ns: "CHR ''/'' \<notin> set reg" "CHR ''/'' \<notin> set man" "CHR ''/'' \<notin> set mdl"
    by (auto simp: ruri_ok_def dest: registry_no_slash slug_no_slash)
  have "CHR ''/'' \<notin> set ''tesla.com''" by simp
  from split_sep [OF this ns(1) r1]
  have r2: "''tesla'' @ CHR ''/'' # ''x/deadbeef''
      = man @ CHR ''/'' # (mdl @ CHR ''/'' # (dev @ port_text pg @ cap_text cg))" by simp
  have "CHR ''/'' \<notin> set ''tesla''" by simp
  from split_sep [OF this ns(2) r2]
  have r3: "''x'' @ CHR ''/'' # ''deadbeef'' = mdl @ CHR ''/'' # (dev @ port_text pg @ cap_text cg)"
    by simp
  have "CHR ''/'' \<notin> set ''x''" by simp
  from split_sep [OF this ns(3) r3] have "mdl = ''x''" by simp
  moreover from ok have "slug_ok mdl" by (simp add: ruri_ok_def)
  ultimately show False by (simp add: slug_ok_def)
qed

theorem single_letter_model_rejected:
  "parseRURI (buildRURI \<lparr> registry = ''tesla.com'', manufacturer = ''tesla'', model = ''x'',
       deviceId = ''deadbeef'', port = None, capability = None \<rparr>)
     = \<lparr> valid = False, error = Some ''Invalid RURI format'', parsed = None \<rparr>"
proof -
  have b: "buildRURI \<lparr> registry = ''tesla.com'', manufacturer = ''tesla'', model = ''x'',
       deviceId = ''deadbeef'', port = None, capability = None \<rparr>
     = ''rcan://tesla.com/tesla/x/deadbeef''"
    by (simp add: buildRURI_def)
  have "list_all (\<lambda>c. \<not> is_ws c) ''rcan://tesla.com/tesla/x/deadbeef''"
    by (simp add: is_ws_def)
  then have t: "trim ''rcan://tesla.com/tesla/x/deadbeef'' = ''rcan://tesla.com/tesla/x/deadbeef''"
    by (rule trim_no_ws)
  have s: "startsWith ''rcan://tesla.com/tesla/x/deadbeef'' ''rcan://''"
    by (simp add: startsWith_def)
  show ?thesis unfolding b by (simp add: parseRURI_def t s no_single_letter_match)
qed

text \<open>
  C3, as the code has it. Round trip: \<open>parseRURI\<close> returns a component set from the text
  \<open>buildRURI\<close> makes of it exactly when every part fits the pattern the parser applies:
  authority and both slugs of at least two characters that start and end with a letter or
  a digit (the pattern asks for a first and for a last character), the device id of 8
  hexadecimal digits or a UUID, the port between 1 and 65535 when present, the capability
  led by a letter when present. Every value that \<open>parseRURI\<close> produces is such a component
  set, so parsing what is built from it gives the same components again (the \<open>raw\<close> field
  then holds the rebuilt text).
\<close>

theorem parse_build_roundtrip:
  "(valid_parts c \<longleftrightarrow>
      parseRURI (buildRURI c) =
        \<lparr> valid = True, error = None,
          parsed = Some \<lparr> registry = registry c, manufacturer = manufacturer c, model = model c,
                          deviceId = deviceId c, port = port c, capability = capability c,
                          raw = buildRURI c \<rparr> \<rparr>)
   \<and> (parsed (parseRURI s) = Some p \<longrightarrow>
        valid_parts p
        \<and> valid (parseRURI (buildRURI p))
        \<and> parsed (parseRURI (buildRURI p)) = Some (p\<lparr>raw := buildRURI p\<rparr>))"
proof (intro conjI impI iffI)
  assume "valid_parts c"
  then show "parseRURI (buildRURI c) =
        \<lparr> valid = True, error = None,
          parsed = Some \<lparr> registry = registry c, manufacturer = manufacturer c, model = model c,
                          deviceId = deviceId c, port = port c, capability = capability c,
                          raw = buildRURI c \<rparr> \<rparr>" by (rule parse_build)
next
  assume "parseRURI (buildRURI c) =
        \<lparr> valid = True, error = None,
          parsed = Some \<lparr> registry = registry c, manufacturer = manufacturer c, model = model c,
                          deviceId = deviceId c, port = port c, capability = capability c,
                          raw = buildRURI c \<rparr> \<rparr>"
  then have "parsed (parseRURI (buildRURI c)) =
      Some \<lparr> registry = registry c, manufacturer = manufacturer c, model = model c,
             deviceId = deviceId c, port = port c, capability = capability c,
             raw = buildRURI c \<rparr>" by simp
  from parsed_valid_parts [OF this] show "valid_parts c" by (simp add: valid_parts_def)
next
  assume a: "parsed (parseRURI s) = Some p"
  then show v: "valid_parts p" by (rule parsed_valid_parts)
  from parse_build [OF v] show "valid (parseRURI (buildRURI p))" by simp
  from parse_build [OF v] show "parsed (parseRURI (buildRURI p)) = Some (p\<lparr>raw := buildRURI p\<rparr>)" by simp
qed

lemma digit_chr_simps:
  "digit_chr 0 = CHR ''0''" "digit_chr 1 = CHR ''1''" "digit_chr 2 = CHR ''2''" "digit_chr 3 = CHR ''3''"
  "digit_chr 4 = CHR ''4''" "digit_chr 5 = CHR ''5''" "digit_chr 6 = CHR ''6''" "digit_chr 7 = CHR ''7''"
  "digit_chr 8 = CHR ''8''" "digit_chr 9 = CHR ''9''"
  by (simp_all add: digit_chr_def char_of_eq_iff)

lemma toString_8080: "toString 8080 = ''8080''"
  by (simp add: toString.simps digit_chr_simps)

lemma ex_parts_valid: "valid_parts ex_parts"
  by (simp add: ex_parts_def valid_parts_def grammar_defs)

lemma ex_parts_build: "buildRURI ex_parts = ''rcan://example.com/acme/arm-bot/deadbeef-1234-5678-9abc-def012345678:8080/arm/grasp''"
  by (simp add: ex_parts_def buildRURI_def toString_8080)

theorem parse_build_roundtrip_witness:
  "valid_parts ex_parts
   \<and> parseRURI ''rcan://example.com/acme/arm-bot/deadbeef-1234-5678-9abc-def012345678:8080/arm/grasp'' =
        \<lparr> valid = True, error = None,
          parsed = Some \<lparr> registry = ''example.com'', manufacturer = ''acme'', model = ''arm-bot'',
                          deviceId = ''deadbeef-1234-5678-9abc-def012345678'', port = Some 8080,
                          capability = Some ''arm/grasp'',
                          raw = ''rcan://example.com/acme/arm-bot/deadbeef-1234-5678-9abc-def012345678:8080/arm/grasp'' \<rparr> \<rparr>
   \<and> parsed (parseRURI (buildRURI
        \<lparr> registry = ''example.com'', manufacturer = ''acme'', model = ''arm-bot'',
          deviceId = ''deadbeef-1234-5678-9abc-def012345678'', port = Some 8080,
          capability = Some ''arm/grasp'',
          raw = ''rcan://example.com/acme/arm-bot/deadbeef-1234-5678-9abc-def012345678:8080/arm/grasp'' \<rparr>))
      = Some \<lparr> registry = ''example.com'', manufacturer = ''acme'', model = ''arm-bot'',
          deviceId = ''deadbeef-1234-5678-9abc-def012345678'', port = Some 8080,
          capability = Some ''arm/grasp'',
          raw = ''rcan://example.com/acme/arm-bot/deadbeef-1234-5678-9abc-def012345678:8080/arm/grasp'' \<rparr>"
proof -
  let ?t = "''rcan://example.com/acme/arm-bot/deadbeef-1234-5678-9abc-def012345678:8080/arm/grasp''"
  let ?p = "\<lparr> registry = ''example.com'', manufacturer = ''acme'', model = ''arm-bot'',
          deviceId = ''deadbeef-1234-5678-9abc-def012345678'', port = Some 8080,
          capability = Some ''arm/grasp'', raw = ?t \<rparr>"
  have 1: "parseRURI ?t = \<lparr> valid = True, error = None, parsed = Some ?p \<rparr>"
    using parse_build_roundtrip [of ex_parts "[]" undefined] ex_parts_valid
    unfolding ex_parts_build by (simp add: ex_parts_def)
  then have "parsed (parseRURI ?t) = Some ?p" by simp
  with parse_build_roundtrip [of ex_parts ?t ?p]
  have 2: "parsed (parseRURI (buildRURI ?p)) = Some (?p\<lparr>raw := buildRURI ?p\<rparr>)" by blast
  have "buildRURI ?p = ?t" by (simp add: buildRURI_def toString_8080)
  with 1 2 ex_parts_valid show ?thesis by simp
qed

lemma ex_plain_text:
  "ruri_text ''rcan://'' ''example.com'' ''acme'' ''arm-bot'' ''deadbeef'' None None
     = ''rcan://example.com/acme/arm-bot/deadbeef''"
  by (simp add: ruri_text_def port_text_def cap_text_def)

lemma ex_plain_parse:
  "parseRURI ''rcan://example.com/acme/arm-bot/deadbeef'' =
     \<lparr> valid = True, error = None,
       parsed = Some \<lparr> registry = ''example.com'', manufacturer = ''acme'', model = ''arm-bot'',
                       deviceId = ''deadbeef'', port = None, capability = None,
                       raw = ''rcan://example.com/acme/arm-bot/deadbeef'' \<rparr> \<rparr>"
  using parseRURI_text [OF ex_ok] unfolding ex_plain_text
  by (simp add: port_of_def strip_capability_def)


text \<open>
  C9. The grammar the module documents is
  \<open>rcan://registry/manufacturer/model/device-id[:port][/capability]\<close>; the expression makes
  the slash before the capability optional, so a capability written straight after the
  device id is accepted.
\<close>

theorem capability_without_slash_accepted:
  "parseRURI ''rcan://example.com/acme/arm-bot/deadbeefgrasp'' =
     \<lparr> valid = True, error = None,
       parsed = Some \<lparr> registry = ''example.com'', manufacturer = ''acme'', model = ''arm-bot'',
                       deviceId = ''deadbeef'', port = None, capability = Some ''grasp'',
                       raw = ''rcan://example.com/acme/arm-bot/deadbeefgrasp'' \<rparr> \<rparr>"
  using parseRURI_text [OF ex_ok_cap] unfolding ex_text
  by (simp add: port_of_def strip_capability_def startsWith_def)

text \<open>
  The rejections of \<open>parseRURI\<close>: the empty string, a missing scheme and a port outside
  1..65535 are each refused with their own message, ports 1 and 65535 are accepted, and a
  result is either valid with a parsed value or invalid with an error.
\<close>

lemma parse_empty: "parseRURI [] = \<lparr> valid = False, error = Some ''RURI cannot be empty'', parsed = None \<rparr>"
  by (simp add: parseRURI_def)

lemma parse_no_scheme:
  "s \<noteq> [] \<Longrightarrow> \<not> startsWith (trim s) ''rcan://'' \<Longrightarrow>
     parseRURI s = \<lparr> valid = False, error = Some ''RURI must start with rcan://'', parsed = None \<rparr>"
  by (simp add: parseRURI_def)

lemma parse_never_partial: "valid (parseRURI s) \<longleftrightarrow> parsed (parseRURI s) \<noteq> None"
  by (auto simp: parseRURI_def Let_def split: option.splits)

lemma parse_error_iff: "error (parseRURI s) \<noteq> None \<longleftrightarrow> \<not> valid (parseRURI s)"
  by (auto simp: parseRURI_def Let_def split: option.splits)

lemma ex_ok_port: "port_text_ok ds \<Longrightarrow> ruri_ok ''rcan://'' ''example.com'' ''acme'' ''arm-bot'' ''deadbeef'' (Some ds) None"
  using ex_ok by (simp add: ruri_ok_def pg_ok_def)

lemma ex_port_text:
  "ruri_text ''rcan://'' ''example.com'' ''acme'' ''arm-bot'' ''deadbeef'' (Some ds) None
     = ''rcan://example.com/acme/arm-bot/deadbeef:'' @ ds"
  by (simp add: ruri_text_def port_text_def cap_text_def)

lemma parseInt_samples:
  "parseInt ''0'' = Some 0" "parseInt ''1'' = Some 1" "parseInt ''65535'' = Some 65535"
  "parseInt ''65536'' = Some 65536"
  by (simp_all add: parseInt_def is_digit_def digit_val_def)

lemma parse_port_bounds:
  "parseRURI ''rcan://example.com/acme/arm-bot/deadbeef:0''
     = \<lparr> valid = False, error = Some ''Port must be between 1 and 65535'', parsed = None \<rparr>"
  "parseRURI ''rcan://example.com/acme/arm-bot/deadbeef:65536''
     = \<lparr> valid = False, error = Some ''Port must be between 1 and 65535'', parsed = None \<rparr>"
  "valid (parseRURI ''rcan://example.com/acme/arm-bot/deadbeef:1'')"
  "valid (parseRURI ''rcan://example.com/acme/arm-bot/deadbeef:65535'')"
proof -
  have ok: "port_text_ok ''0''" "port_text_ok ''1''" "port_text_ok ''65535''" "port_text_ok ''65536''"
    by (simp_all add: port_text_ok_def is_digit_def)
  show "parseRURI ''rcan://example.com/acme/arm-bot/deadbeef:0''
     = \<lparr> valid = False, error = Some ''Port must be between 1 and 65535'', parsed = None \<rparr>"
    using parseRURI_text_port_range [OF ex_ok_port [OF ok(1)], of 0]
    by (simp add: ex_port_text port_of_def parseInt_samples)
  show "parseRURI ''rcan://example.com/acme/arm-bot/deadbeef:65536''
     = \<lparr> valid = False, error = Some ''Port must be between 1 and 65535'', parsed = None \<rparr>"
    using parseRURI_text_port_range [OF ex_ok_port [OF ok(4)], of 65536]
    by (simp add: ex_port_text port_of_def parseInt_samples)
  show "valid (parseRURI ''rcan://example.com/acme/arm-bot/deadbeef:1'')"
    using parseRURI_text [OF ex_ok_port [OF ok(2)]]
    by (simp add: ex_port_text port_of_def parseInt_samples)
  show "valid (parseRURI ''rcan://example.com/acme/arm-bot/deadbeef:65535'')"
    using parseRURI_text [OF ex_ok_port [OF ok(3)]]
    by (simp add: ex_port_text port_of_def parseInt_samples)
qed

text \<open>
  C7. Of the rejection set, the device id clause fails: twelve hexadecimal digits are neither
  eight digits nor a UUID, yet the string is accepted, the last four digits being read as a
  capability (the optional slash of C9).
\<close>

theorem long_device_id_accepted:
  "parseRURI ''rcan://example.com/acme/arm-bot/deadbeefcafe'' =
     \<lparr> valid = True, error = None,
       parsed = Some \<lparr> registry = ''example.com'', manufacturer = ''acme'', model = ''arm-bot'',
                       deviceId = ''deadbeef'', port = None, capability = Some ''cafe'',
                       raw = ''rcan://example.com/acme/arm-bot/deadbeefcafe'' \<rparr> \<rparr>"
proof -
  have ok: "ruri_ok ''rcan://'' ''example.com'' ''acme'' ''arm-bot'' ''deadbeef'' None (Some ''cafe'')"
    by (simp add: grammar_defs)
  have t: "ruri_text ''rcan://'' ''example.com'' ''acme'' ''arm-bot'' ''deadbeef'' None (Some ''cafe'')
     = ''rcan://example.com/acme/arm-bot/deadbeefcafe''"
    by (simp add: ruri_text_def port_text_def cap_text_def)
  show ?thesis
    using parseRURI_text [OF ok] unfolding t
    by (simp add: port_of_def strip_capability_def startsWith_def)
qed

subsection \<open>Case variants\<close>

lemma digit_ci: "to_upper x = to_upper y \<Longrightarrow> is_digit x \<Longrightarrow> y = x"
  by (auto simp: to_upper_eq is_digit_def is_lower_def less_eq_char_def split: if_splits)

lemma am_ci: "to_upper x = to_upper y \<Longrightarrow> am True a x = am True a y"
proof (cases a)
  case (Chr p) then show "to_upper x = to_upper y \<Longrightarrow> ?thesis" by (simp add: canon_def)
next
  case (Cls items) then show "to_upper x = to_upper y \<Longrightarrow> ?thesis" by (simp add: canon_def)
next
  case Digit
  assume "to_upper x = to_upper y"
  then have "is_digit x = is_digit y" using digit_ci [of x y] digit_ci [of y x] by auto
  with Digit show ?thesis by simp
qed

lemma ws_ci: "to_upper x = to_upper y \<Longrightarrow> is_ws x = is_ws y"
  using ws_upper [of x] ws_upper [of y] by simp

lemma ci_eq_lengthD: "ci_eq s t \<Longrightarrow> length s = length t"
  by (simp add: ci_eq_def list_all2_lengthD)

lemma ci_eq_drop: "ci_eq s t \<Longrightarrow> ci_eq (drop k s) (drop k t)"
  by (simp add: ci_eq_def list_all2_dropI)

lemma ci_eq_take: "ci_eq s t \<Longrightarrow> ci_eq (take k s) (take k t)"
  by (simp add: ci_eq_def list_all2_takeI)

lemma list_all2_concat_map:
  assumes "list_all2 R xs ys" and "\<And>x y. R x y \<Longrightarrow> list_all2 Q (f x) (g y)"
  shows "list_all2 Q (concat (map f xs)) (concat (map g ys))"
  using assms(1)
proof (induction rule: list_all2_induct)
  case Nil show ?case by simp
next
  case (Cons x xs y ys)
  then show ?case using assms(2) by (simp add: list_all2_appendI)
qed

lemma list_all2_map_both:
  assumes "list_all2 R xs ys" and "\<And>x y. R x y \<Longrightarrow> Q (f x) (g y)"
  shows "list_all2 Q (map f xs) (map g ys)"
  using assms(1)
proof (induction rule: list_all2_induct)
  case Nil show ?case by simp
next
  case (Cons x xs y ys)
  then show ?case using assms(2) by simp
qed

lemma takeWhile_length_rel:
  assumes "list_all2 R s t" and "\<And>x y. R x y \<Longrightarrow> P x = Q y"
  shows "length (takeWhile P s) = length (takeWhile Q t)"
  using assms(1)
proof (induction rule: list_all2_induct)
  case Nil show ?case by simp
next
  case (Cons x xs y ys)
  then show ?case using assms(2) [of x y] by simp
qed

lemma dropWhile_rel:
  assumes "list_all2 R s t" and "\<And>x y. R x y \<Longrightarrow> P x = Q y"
  shows "list_all2 R (dropWhile P s) (dropWhile Q t)"
  using assms(1)
proof (induction rule: list_all2_induct)
  case Nil show ?case by simp
next
  case (Cons x xs y ys)
  then show ?case using assms(2) [of x y] by simp
qed

lemma trim_ci: "ci_eq s t \<Longrightarrow> ci_eq (trim s) (trim t)"
proof -
  assume "ci_eq s t"
  then have "list_all2 (\<lambda>x y. to_upper x = to_upper y) s t" by (simp add: ci_eq_def)
  then have "list_all2 (\<lambda>x y. to_upper x = to_upper y) (dropWhile is_ws s) (dropWhile is_ws t)"
    by (rule dropWhile_rel) (rule ws_ci)
  then have "list_all2 (\<lambda>x y. to_upper x = to_upper y) (rev (dropWhile is_ws s)) (rev (dropWhile is_ws t))"
    by (simp add: list_all2_rev)
  then have "list_all2 (\<lambda>x y. to_upper x = to_upper y)
      (dropWhile is_ws (rev (dropWhile is_ws s))) (dropWhile is_ws (rev (dropWhile is_ws t)))"
    by (rule dropWhile_rel) (rule ws_ci)
  then show "ci_eq (trim s) (trim t)" by (simp add: ci_eq_def trim_def list_all2_rev)
qed

lemma st_relI: "ci_eq s t \<Longrightarrow> caps_rel c d \<Longrightarrow> st_rel (i, s, c) (i, t, d)"
  by (simp add: st_rel_def)

lemma ms_ci:
  assumes "ci_eq s t" "caps_rel c d"
  shows "list_all2 st_rel (ms True r (i, s, c)) (ms True r (i, t, d))"
  using assms
proof (induction r arbitrary: i s t c d)
  case Eps then show ?case by (simp add: st_rel_def)
next
  case Bol then show ?case by (simp add: st_rel_def)
next
  case Eol
  then show ?case by (auto simp: st_rel_def dest: ci_eq_lengthD)
next
  case (Atom a)
  show ?case
  proof (cases s)
    case Nil
    with Atom ci_eq_lengthD [OF Atom(1)] show ?thesis by simp
  next
    case (Cons x xs)
    with ci_eq_lengthD [OF Atom(1)] obtain y ys where t: "t = y # ys" by (cases t) auto
    from Atom(1) Cons t have xy: "to_upper x = to_upper y" "ci_eq xs ys" by (simp_all add: ci_eq_def)
    from am_ci [OF xy(1)] xy(2) Atom(2) Cons t show ?thesis by (simp add: st_rel_def)
  qed
next
  case (Seq r1 r2)
  have 1: "list_all2 st_rel (ms True r1 (i, s, c)) (ms True r1 (i, t, d))" using Seq by blast
  have 2: "list_all2 st_rel (ms True r2 a) (ms True r2 b)" if "st_rel a b" for a b
  proof -
    obtain j u e where a: "a = (j, u, e)" by (cases a)
    obtain k v f where b: "b = (k, v, f)" by (cases b)
    from that a b have "k = j" "ci_eq u v" "caps_rel e f" by (simp_all add: st_rel_def)
    with Seq.IH(2) a b show ?thesis by simp
  qed
  show ?case using list_all2_concat_map [OF 1 2] by simp
next
  case (Opt r)
  then have "list_all2 st_rel (ms True r (i, s, c)) (ms True r (i, t, d))" by blast
  moreover from Opt(2,3) have "list_all2 st_rel [(i, s, c)] [(i, t, d)]" by (simp add: st_rel_def)
  ultimately show ?case by (simp add: list_all2_appendI)
next
  case (Rep a lo hi)
  from Rep(1) have "list_all2 (\<lambda>x y. to_upper x = to_upper y) s t" by (simp add: ci_eq_def)
  then have n: "length (takeWhile (am True a) s) = length (takeWhile (am True a) t)"
    by (rule takeWhile_length_rel) (rule am_ci)
  have "list_all2 st_rel (map (\<lambda>k. (i + k, drop k s, c)) ks) (map (\<lambda>k. (i + k, drop k t, d)) ks)" for ks
    using Rep by (induction ks) (simp_all add: st_rel_def ci_eq_drop)
  then show ?case by (simp add: Let_def n)
next
  case (Grp g r)
  have 1: "list_all2 st_rel (ms True r (i, s, c)) (ms True r (i, t, d))" using Grp by blast
  have 2: "st_rel ((\<lambda>(i', s', c'). (i', s', c'[g := Some (take (i' - i) s)])) a)
                  ((\<lambda>(i', s', c'). (i', s', c'[g := Some (take (i' - i) t)])) b)" if "st_rel a b" for a b
  proof -
    obtain j u e where a: "a = (j, u, e)" by (cases a)
    obtain k v f where b: "b = (k, v, f)" by (cases b)
    from that a b have r: "k = j" "ci_eq u v" "caps_rel e f" by (simp_all add: st_rel_def)
    from Grp(2) have "ci_eq (take (j - i) s) (take (j - i) t)" by (rule ci_eq_take)
    with r(3) have "caps_rel (e[g := Some (take (j - i) s)]) (f[g := Some (take (j - i) t)])"
      by (simp add: caps_rel_def list_all2_update_cong)
    with r a b show ?thesis by (simp add: st_rel_def)
  qed
  show ?case
    using list_all2_map_both [of st_rel _ _ st_rel
        "\<lambda>(i', s', c'). (i', s', c'[g := Some (take (i' - i) s)])"
        "\<lambda>(i', s', c'). (i', s', c'[g := Some (take (i' - i) t)])", OF 1 2]
    by simp
qed

lemma match_RURI_ci:
  assumes "ci_eq s t"
  shows "rel_option caps_rel (match_RURI s) (match_RURI t)"
proof -
  have "caps_rel (replicate 7 None) (replicate 7 None)" by (simp add: caps_rel_def list_all2_conv_all_nth)
  from ms_ci [OF assms this, of RURI_REGEX 0]
  have L: "list_all2 st_rel (ms True RURI_REGEX (0, s, replicate 7 None)) (ms True RURI_REGEX (0, t, replicate 7 None))" .
  show ?thesis
  proof (cases "ms True RURI_REGEX (0, s, replicate 7 None)")
    case Nil
    with L have "ms True RURI_REGEX (0, t, replicate 7 None) = []" by simp
    with Nil show ?thesis by (simp add: match_RURI_ms)
  next
    case (Cons a as)
    with L obtain b bs where b: "ms True RURI_REGEX (0, t, replicate 7 None) = b # bs" "st_rel a b"
      by (auto simp: list_all2_Cons1)
    obtain j u e where a: "a = (j, u, e)" by (cases a)
    obtain k v f where bb: "b = (k, v, f)" by (cases b)
    from b(2) a bb have r: "k = j" "caps_rel e f" by (simp_all add: st_rel_def)
    from assms have "ci_eq (take j s) (take j t)" by (rule ci_eq_take)
    with r(2) have "caps_rel (e[0 := Some (take j s)]) (f[0 := Some (take j t)])"
      by (simp add: caps_rel_def list_all2_update_cong)
    with Cons b(1) a bb r(1) show ?thesis by (simp add: match_RURI_ms)
  qed
qed

lemma ci_eq_digits: "ci_eq ds es \<Longrightarrow> list_all is_digit ds \<Longrightarrow> es = ds"
  unfolding ci_eq_def
proof (induction rule: list_all2_induct)
  case Nil show ?case by simp
next
  case (Cons x xs y ys)
  then show ?case using digit_ci [of x y] by simp
qed

lemma slash_ci: "to_upper x = to_upper y \<Longrightarrow> (x = CHR ''/'') = (y = CHR ''/'')"
  using one_slash [of x] one_slash [of y] by metis

lemma startsWith_slash_ci: "ci_eq t u \<Longrightarrow> startsWith t ''/'' = startsWith u ''/''"
proof (cases t)
  case Nil
  assume "ci_eq t u" with Nil show ?thesis by (simp add: ci_eq_def)
next
  case (Cons x xs)
  assume a: "ci_eq t u"
  with Cons obtain y ys where u: "u = y # ys" by (cases u) (auto simp: ci_eq_def)
  from a Cons u have "to_upper x = to_upper y" by (simp add: ci_eq_def)
  from slash_ci [OF this] Cons u show ?thesis by (simp add: startsWith_def)
qed

lemma strip_capability_ci:
  assumes "rel_option ci_eq cg cg'"
  shows "rel_option ci_eq (strip_capability cg) (strip_capability cg')"
proof (cases cg)
  case None
  with assms show ?thesis by (cases cg') (simp_all add: strip_capability_def)
next
  case (Some t)
  with assms obtain u where u: "cg' = Some u" "ci_eq t u" by (cases cg') auto
  let ?t = "if startsWith t ''/'' then drop 1 t else t"
  let ?u = "if startsWith u ''/'' then drop 1 u else u"
  from u(2) have r: "ci_eq ?t ?u" by (simp add: startsWith_slash_ci [OF u(2)] ci_eq_drop)
  then have "(?t = []) = (?u = [])" using ci_eq_lengthD by fastforce
  with r Some u(1) show ?thesis by (simp add: strip_capability_def Let_def)
qed

lemma parseRURI_trim: "s \<noteq> [] \<Longrightarrow> trim s \<noteq> [] \<Longrightarrow> parseRURI (trim s) = parseRURI s"
  unfolding parseRURI_def trim_idem by simp

lemma parseRURI_valid_full:
  assumes "valid (parseRURI s)"
  shows "\<exists>reg man mdl dev pg cg. s \<noteq> [] \<and> trim s = ruri_text ''rcan://'' reg man mdl dev pg cg
     \<and> ruri_ok ''rcan://'' reg man mdl dev pg cg
     \<and> (case port_of pg of None \<Rightarrow> True | Some n \<Rightarrow> 1 \<le> n \<and> n \<le> 65535)
     \<and> parseRURI s = \<lparr> valid = True, error = None,
          parsed = Some \<lparr> registry = reg, manufacturer = man, model = mdl, deviceId = dev,
            port = port_of pg, capability = strip_capability cg, raw = trim s \<rparr> \<rparr>"
proof -
  from parseRURI_valid_D [OF assms] obtain reg man mdl dev pg cg where
    d: "s \<noteq> []" "trim s = ruri_text ''rcan://'' reg man mdl dev pg cg" "ruri_ok ''rcan://'' reg man mdl dev pg cg"
       "case port_of pg of None \<Rightarrow> True | Some n \<Rightarrow> 1 \<le> n \<and> n \<le> 65535" by blast
  from d(2) ruri_text_nonempty [OF d(3)] have "trim s \<noteq> []" by simp
  from parseRURI_trim [OF d(1) this] parseRURI_text [OF d(3,4)] d(2)
  have "parseRURI s = \<lparr> valid = True, error = None,
          parsed = Some \<lparr> registry = reg, manufacturer = man, model = mdl, deviceId = dev,
            port = port_of pg, capability = strip_capability cg, raw = trim s \<rparr> \<rparr>" by simp
  with d show ?thesis by blast
qed

text \<open>
  C8, as the code has it. Matching ignores the case of letters everywhere in the grammar, but
  \<open>parseRURI\<close> first requires the trimmed input to start with the lower-case text \<open>rcan://\<close>.
  So: when \<open>parseRURI\<close> accepts \<open>s\<close>, it accepts every case variant of \<open>s\<close> that keeps this
  prefix in lower case, and the components of the two results are case variants of each
  other, with the same port.
\<close>

theorem case_variant_accepted:
  assumes "valid (parseRURI s)" and "ci_eq s s'" and "startsWith (trim s') ''rcan://''"
  shows "\<exists>p p'. parseRURI s = \<lparr> valid = True, error = None, parsed = Some p \<rparr>
     \<and> parseRURI s' = \<lparr> valid = True, error = None, parsed = Some p' \<rparr>
     \<and> ci_eq (registry p) (registry p') \<and> ci_eq (manufacturer p) (manufacturer p')
     \<and> ci_eq (model p) (model p') \<and> ci_eq (deviceId p) (deviceId p')
     \<and> port p' = port p \<and> rel_option ci_eq (capability p) (capability p')
     \<and> ci_eq (raw p) (raw p')"
proof -
  from parseRURI_valid_full [OF assms(1)] obtain reg man mdl dev pg cg where
    d: "s \<noteq> []" "trim s = ruri_text ''rcan://'' reg man mdl dev pg cg" "ruri_ok ''rcan://'' reg man mdl dev pg cg"
       "case port_of pg of None \<Rightarrow> True | Some n \<Rightarrow> 1 \<le> n \<and> n \<le> 65535"
    and P: "parseRURI s = \<lparr> valid = True, error = None,
          parsed = Some \<lparr> registry = reg, manufacturer = man, model = mdl, deviceId = dev,
            port = port_of pg, capability = strip_capability cg, raw = trim s \<rparr> \<rparr>" by blast
  let ?m = "[Some (trim s), Some reg, Some man, Some mdl, Some dev, pg, cg]"
  have m: "match_RURI (trim s) = Some ?m" using match_RURI_accept [OF d(3)] d(2) by simp
  have tt: "ci_eq (trim s) (trim s')" using assms(2) by (rule trim_ci)
  from match_RURI_ci [OF tt] m obtain m' where m': "match_RURI (trim s') = Some m'" "caps_rel ?m m'"
    by (cases "match_RURI (trim s')") auto
  from match_RURI_sound [OF m'(1)] obtain sch' reg' man' mdl' dev' pg' cg' where
    e: "trim s' = ruri_text sch' reg' man' mdl' dev' pg' cg'" "ruri_ok sch' reg' man' mdl' dev' pg' cg'"
       "m' = [Some (trim s'), Some reg', Some man', Some mdl', Some dev', pg', cg']" by blast
  from m'(2) e(3) have r: "ci_eq reg reg'" "ci_eq man man'" "ci_eq mdl mdl'" "ci_eq dev dev'"
      "rel_option ci_eq pg pg'" "rel_option ci_eq cg cg'"
    by (simp_all add: caps_rel_def)
  from e(2) have "ci_eq ''rcan://'' sch'" by (simp add: ruri_ok_def)
  moreover from assms(3) e(1) have "startsWith (sch' @ (reg' @ ''/'' @ man' @ ''/'' @ mdl' @ ''/'' @ dev' @ port_text pg' @ cap_text cg')) ''rcan://''"
    by (simp add: ruri_text_def)
  ultimately have sch': "sch' = ''rcan://''" by (rule scheme_exact)
  have pg': "pg' = pg"
  proof (cases pg)
    case None with r(5) show ?thesis by (cases pg') auto
  next
    case (Some ds)
    with r(5) obtain es where es: "pg' = Some es" "ci_eq ds es" by (cases pg') auto
    from d(3) Some have "list_all is_digit ds" by (simp add: ruri_ok_def pg_ok_def port_text_ok_def)
    from ci_eq_digits [OF es(2) this] es(1) Some show ?thesis by simp
  qed
  from e(2) sch' have ok': "ruri_ok ''rcan://'' reg' man' mdl' dev' pg' cg'" by simp
  from d(4) pg' have rng': "case port_of pg' of None \<Rightarrow> True | Some n \<Rightarrow> 1 \<le> n \<and> n \<le> 65535" by simp
  from assms(2) d(1) have ne': "s' \<noteq> []" by (auto dest: ci_eq_lengthD)
  from e(1) ruri_text_nonempty [OF e(2)] have tne': "trim s' \<noteq> []" by simp
  from parseRURI_trim [OF ne' tne'] parseRURI_text [OF ok' rng'] e(1) sch'
  have P': "parseRURI s' = \<lparr> valid = True, error = None,
          parsed = Some \<lparr> registry = reg', manufacturer = man', model = mdl', deviceId = dev',
            port = port_of pg', capability = strip_capability cg', raw = trim s' \<rparr> \<rparr>" by simp
  from P P' r(1-4) pg' strip_capability_ci [OF r(6)] tt show ?thesis by simp
qed

lemma to_upper_samples:
  "to_upper CHR ''r'' = CHR ''R''" "to_upper CHR ''c'' = CHR ''C''" "to_upper CHR ''a'' = CHR ''A''"
  "to_upper CHR ''n'' = CHR ''N''" "to_upper CHR ''R'' = CHR ''R''" "to_upper CHR ''C'' = CHR ''C''"
  "to_upper CHR ''A'' = CHR ''A''" "to_upper CHR ''N'' = CHR ''N''"
  "to_upper CHR ''e'' = CHR ''E''" "to_upper CHR ''E'' = CHR ''E''"
  "to_upper CHR ''d'' = CHR ''D''" "to_upper CHR ''D'' = CHR ''D''"
  "to_upper CHR ''b'' = CHR ''B''" "to_upper CHR ''B'' = CHR ''B''"
  "to_upper CHR ''f'' = CHR ''F''" "to_upper CHR ''F'' = CHR ''F''"
  by (simp_all add: to_upper_def char_of_eq_iff)

lemma trim_upper_sample: "trim ''RCAN://example.com/acme/arm-bot/deadbeef'' = ''RCAN://example.com/acme/arm-bot/deadbeef''"
  by (rule trim_no_ws) (simp add: is_ws_def)

theorem upper_case_scheme_rejected:
  "valid (parseRURI ''rcan://example.com/acme/arm-bot/deadbeef'')
   \<and> ci_eq ''rcan://example.com/acme/arm-bot/deadbeef'' ''RCAN://example.com/acme/arm-bot/deadbeef''
   \<and> parseRURI ''RCAN://example.com/acme/arm-bot/deadbeef''
       = \<lparr> valid = False, error = Some ''RURI must start with rcan://'', parsed = None \<rparr>"
proof -
  have "ci_eq ''rcan://example.com/acme/arm-bot/deadbeef'' ''RCAN://example.com/acme/arm-bot/deadbeef''"
    by (simp add: ci_eq_def to_upper_samples)
  moreover have "parseRURI ''RCAN://example.com/acme/arm-bot/deadbeef''
       = \<lparr> valid = False, error = Some ''RURI must start with rcan://'', parsed = None \<rparr>"
    by (rule parse_no_scheme) (simp_all add: trim_upper_sample startsWith_def)
  ultimately show ?thesis by (simp add: ex_plain_parse)
qed

lemma trim_mixed_sample: "trim ''rcan://Example.com/acme/arm-bot/DEADBEEF'' = ''rcan://Example.com/acme/arm-bot/DEADBEEF''"
  by (rule trim_no_ws) (simp add: is_ws_def)

theorem case_variant_accepted_witness:
  "valid (parseRURI ''rcan://example.com/acme/arm-bot/deadbeef'')
   \<and> ci_eq ''rcan://example.com/acme/arm-bot/deadbeef'' ''rcan://Example.com/acme/arm-bot/DEADBEEF''
   \<and> startsWith (trim ''rcan://Example.com/acme/arm-bot/DEADBEEF'') ''rcan://''
   \<and> valid (parseRURI ''rcan://Example.com/acme/arm-bot/DEADBEEF'')"
proof -
  have v: "valid (parseRURI ''rcan://example.com/acme/arm-bot/deadbeef'')" by (simp add: ex_plain_parse)
  have c: "ci_eq ''rcan://example.com/acme/arm-bot/deadbeef'' ''rcan://Example.com/acme/arm-bot/DEADBEEF''"
    by (simp add: ci_eq_def to_upper_samples)
  have s: "startsWith (trim ''rcan://Example.com/acme/arm-bot/DEADBEEF'') ''rcan://''"
    by (simp add: trim_mixed_sample startsWith_def)
  from case_variant_accepted [OF v c s]
  have "valid (parseRURI ''rcan://Example.com/acme/arm-bot/DEADBEEF'')" by auto
  with v c s show ?thesis by blast
qed

subsection \<open>File names of records\<close>

lemma am_Chr_cs: "am False (Chr p) c \<longleftrightarrow> c = p"
  by (auto simp: canon_def)

lemma Mt_lit_cs: "Mt False (lit str) i pre s' c c' \<longleftrightarrow> pre = str \<and> c' = c"
proof (induction str arbitrary: i pre)
  case Nil show ?case by (auto simp: lit_Nil)
next
  case (Cons x xs)
  show ?case unfolding lit_Cons Mt_Seq_Atom Cons.IH am_Chr_cs by (cases pre) auto
qed

lemma Mt_digits: "Mt ic (exactly Digit n) i pre s' c c' \<longleftrightarrow> list_all is_digit pre \<and> length pre = n \<and> c' = c"
  by (auto simp: Mt_exactly list_all_iff)

lemma is_rrn_file_iff:
  "is_rrn_file f \<longleftrightarrow> (\<exists>ds. f = ''RRN-'' @ ds @ ''.yaml'' \<and> list_all is_digit ds \<and> length ds = 8)"
proof
  assume a: "is_rrn_file f"
  have "drop 4 f = take 8 (drop 4 f) @ drop 8 (drop 4 f)" by (simp only: append_take_drop_id)
  moreover have "drop 8 (drop 4 f) = drop 12 f" by simp
  moreover have "f = take 4 f @ drop 4 f" by (simp only: append_take_drop_id)
  ultimately have "f = take 4 f @ take 8 (drop 4 f) @ drop 12 f" by metis
  with a show "\<exists>ds. f = ''RRN-'' @ ds @ ''.yaml'' \<and> list_all is_digit ds \<and> length ds = 8"
    by (intro exI [of _ "take 8 (drop 4 f)"]) (auto simp: is_rrn_file_def)
next
  assume "\<exists>ds. f = ''RRN-'' @ ds @ ''.yaml'' \<and> list_all is_digit ds \<and> length ds = 8"
  then show "is_rrn_file f" by (auto simp: is_rrn_file_def)
qed

lemma Mt_RRN_FILE:
  "Mt False RRN_FILE_REGEX 0 pre s' c c' \<longleftrightarrow>
     (\<exists>ds. pre = ''RRN-'' @ ds @ ''.yaml'' \<and> list_all is_digit ds \<and> length ds = 8) \<and> s' = [] \<and> c' = c"
proof -
  have 3: "Mt False (cat [lit ''.yaml'', Eol]) j p t a b \<longleftrightarrow> p = ''.yaml'' \<and> t = [] \<and> b = a" for j p t a b
    unfolding cat_Cons cat_Nil Mt.simps(5) Mt_lit_cs Mt.simps(3) Mt.simps(1) by auto
  have 2: "Mt False (cat [exactly Digit 8, lit ''.yaml'', Eol]) j p t a b \<longleftrightarrow>
      (\<exists>ds. p = ds @ ''.yaml'' \<and> list_all is_digit ds \<and> length ds = 8) \<and> t = [] \<and> b = a" for j p t a b
    unfolding cat_Cons [of "exactly Digit 8"] Mt.simps(5) Mt_digits 3 by auto
  have 1: "Mt False (cat [lit ''RRN-'', exactly Digit 8, lit ''.yaml'', Eol]) j p t a b \<longleftrightarrow>
      (\<exists>ds. p = ''RRN-'' @ ds @ ''.yaml'' \<and> list_all is_digit ds \<and> length ds = 8) \<and> t = [] \<and> b = a" for j p t a b
    unfolding cat_Cons [of "lit ''RRN-''"] Mt.simps(5) Mt_lit_cs 2 by auto
  show ?thesis
    unfolding RRN_FILE_REGEX_def cat_Cons [of Bol] Mt.simps(5) Mt.simps(2) using 1 by auto
qed

lemma Mt_RRN_NUM:
  "Mt False RRN_NUM_REGEX j pre s' c c' \<longleftrightarrow>
     (\<exists>ds. pre = ''RRN-'' @ ds @ ''.yaml'' \<and> list_all is_digit ds \<and> length ds = 8 \<and> c' = c[1 := Some ds])"
proof -
  have 3: "Mt False (cat [lit ''.yaml'']) j p t a b \<longleftrightarrow> p = ''.yaml'' \<and> b = a" for j p t a b
    unfolding cat_Cons cat_Nil Mt.simps(5) Mt_lit_cs Mt.simps(1) by auto
  have 2: "Mt False (cat [Grp 1 (exactly Digit 8), lit ''.yaml'']) j p t a b \<longleftrightarrow>
      (\<exists>ds. p = ds @ ''.yaml'' \<and> list_all is_digit ds \<and> length ds = 8 \<and> b = a[1 := Some ds])" for j p t a b
    unfolding cat_Cons [of "Grp 1 _"] Mt.simps(5) Mt.simps(8) Mt_digits 3 by auto
  show ?thesis
    unfolding RRN_NUM_REGEX_def cat_Cons [of "lit ''RRN-''"] Mt.simps(5) Mt_lit_cs 2 by auto
qed

lemma match_Bol:
  "match ic (Seq Bol r) ng s =
     (case ms ic (Seq Bol r) (0, s, replicate (Suc ng) None) of
        [] \<Rightarrow> None | (i', s', c') # _ \<Rightarrow> Some (c'[0 := Some (take i' s)]))"
proof -
  have ks: "[0 ..< Suc (length s)] = 0 # [1 ..< Suc (length s)]" by (simp add: upt_rec)
  have rest: "match_from ic (Seq Bol r) ng s [1 ..< Suc (length s)] = None"
  proof (rule match_from_None, rule ballI)
    fix k assume "k \<in> set [1 ..< Suc (length s)]"
    then have "k \<noteq> 0" by auto
    then show "ms ic (Seq Bol r) (k, drop k s, replicate (Suc ng) None) = []" by simp
  qed
  show ?thesis
    unfolding match_def ks match_from.simps rest
    by (simp split: list.splits)
qed

lemma match_RRN_FILE: "match False RRN_FILE_REGEX 0 f \<noteq> None \<longleftrightarrow> is_rrn_file f"
proof -
  let ?L = "ms False RRN_FILE_REGEX (0, f, replicate (Suc 0) None)"
  have B: "RRN_FILE_REGEX = Seq Bol (cat [lit ''RRN-'', exactly Digit 8, lit ''.yaml'', Eol])"
    by (simp add: RRN_FILE_REGEX_def cat_Cons)
  have "match False RRN_FILE_REGEX 0 f \<noteq> None \<longleftrightarrow> ?L \<noteq> []"
    unfolding B match_Bol by (auto split: list.splits)
  also have "\<dots> \<longleftrightarrow> (\<exists>i' s' c'. (i', s', c') \<in> set ?L)"
    by (cases ?L) auto
  also have "\<dots> \<longleftrightarrow> is_rrn_file f"
    unfolding ms_iff Mt_RRN_FILE is_rrn_file_iff by auto
  finally show ?thesis .
qed

lemma match_RRN_NUM:
  assumes "list_all is_digit ds" "length ds = 8"
  shows "\<exists>w. match False RRN_NUM_REGEX 1 (''RRN-'' @ ds @ ''.yaml'') = Some [Some w, Some ds]"
proof -
  let ?f = "''RRN-'' @ ds @ ''.yaml''"
  let ?L = "ms False RRN_NUM_REGEX (0, ?f, [None, None])"
  have mem: "(i', s', c') \<in> set ?L \<longleftrightarrow> i' = length ?f \<and> s' = [] \<and> c' = [None, Some ds]" for i' s' c'
  proof
    assume "(i', s', c') \<in> set ?L"
    then obtain pre es where p: "?f = pre @ s'" "i' = length pre" "pre = ''RRN-'' @ es @ ''.yaml''"
        "length es = 8" "c' = [None, None][1 := Some es]"
      unfolding ms_iff Mt_RRN_NUM by auto
    from p(1,3) have "ds @ ''.yaml'' = es @ ''.yaml'' @ s'" by simp
    with assms(2) p(4) have "es = ds" "s' = []" by auto
    with p show "i' = length ?f \<and> s' = [] \<and> c' = [None, Some ds]" by simp
  next
    assume "i' = length ?f \<and> s' = [] \<and> c' = [None, Some ds]"
    then show "(i', s', c') \<in> set ?L"
      unfolding ms_iff Mt_RRN_NUM using assms by (intro exI [of _ ?f]) auto
  qed
  then have "(length ?f, [], [None, Some ds]) \<in> set ?L" by blast
  then obtain x xs where L: "?L = x # xs" by (cases ?L) auto
  then have "x \<in> set ?L" by simp
  with mem have x: "x = (length ?f, [], [None, Some ds])" by (cases x) auto
  have ks: "[0 ..< Suc (length ?f)] = 0 # [1 ..< Suc (length ?f)]" by (simp add: upt_rec)
  have r2: "replicate (Suc 1) None = [None, None]" by (simp add: numeral_eq_Suc)
  show ?thesis
    unfolding match_def ks match_from.simps r2 drop_0 L x by simp
qed

lemma rrn_file_number:
  assumes "is_rrn_file f"
  shows "parseInt (case match False RRN_NUM_REGEX 1 f of None \<Rightarrow> ''0'' | Some m \<Rightarrow> or_else (grp m 1) ''0'')
           = rrn_number f \<and> rrn_number f \<noteq> None"
proof -
  from assms obtain ds where f: "f = ''RRN-'' @ ds @ ''.yaml''" and ds: "list_all is_digit ds" "length ds = 8"
    unfolding is_rrn_file_iff by blast
  from match_RRN_NUM [OF ds] f obtain w where m: "match False RRN_NUM_REGEX 1 f = Some [Some w, Some ds]" by auto
  from ds(2) have ne: "ds \<noteq> []" by auto
  from f ds(2) have t: "take 8 (drop 4 f) = ds" by simp
  from ds ne have "parseInt ds \<noteq> None" by (simp add: parseInt_def takeWhile_all)
  with m ne t assms show ?thesis by (simp add: grp_def or_else_def rrn_number_def)
qed

lemma foldl_js_max: "foldl js_max (Some x) (map Some xs) = Some (foldl max x xs)"
  by (induction xs arbitrary: x) (simp_all add: js_max_def)

lemma foldl_max_Max: "foldl max (x::nat) xs = Max (set (x # xs))"
proof -
  have "(\<lambda>a b. max b a) = (max :: nat \<Rightarrow> nat \<Rightarrow> nat)" by (intro ext) (simp add: max.commute)
  then have "foldl max x xs = fold max xs x" by (simp add: foldl_conv_fold)
  then show ?thesis by (simp only: Max.set_eq_fold)
qed

lemma rrns_eq:
  "map (\<lambda>f. parseInt (case match False RRN_NUM_REGEX 1 f of None \<Rightarrow> ''0'' | Some m \<Rightarrow> or_else (grp m 1) ''0''))
       (filter (\<lambda>f. match False RRN_FILE_REGEX 0 f \<noteq> None) fs)
     = map Some (List.map_filter rrn_number fs)"
proof -
  let ?g = "\<lambda>f. parseInt (case match False RRN_NUM_REGEX 1 f of None \<Rightarrow> ''0'' | Some m \<Rightarrow> or_else (grp m 1) ''0'')"
  have P: "(\<lambda>f. match False RRN_FILE_REGEX 0 f \<noteq> None) = is_rrn_file"
    by (rule ext) (rule match_RRN_FILE)
  have "map ?g (filter is_rrn_file fs) = map Some (List.map_filter rrn_number fs)"
  proof (induction fs)
    case Nil show ?case by (simp add: map_filter_simps)
  next
    case (Cons f fs)
    show ?case
    proof (cases "is_rrn_file f")
      case True
      from rrn_file_number [OF True] obtain n where n: "rrn_number f = Some n" "?g f = Some n"
        by auto
      from True have "map ?g (filter is_rrn_file (f # fs)) = ?g f # map ?g (filter is_rrn_file fs)"
        by (simp only: filter.simps if_True list.map)
      also have "\<dots> = Some n # map Some (List.map_filter rrn_number fs)"
        by (simp only: n(2) Cons.IH)
      also have "\<dots> = map Some (List.map_filter rrn_number (f # fs))"
        by (simp add: map_filter_simps n(1))
      finally show ?thesis .
    next
      case False
      then have n: "rrn_number f = None" by (simp add: rrn_number_def)
      from False have "map ?g (filter is_rrn_file (f # fs)) = map ?g (filter is_rrn_file fs)"
        by (simp only: filter.simps if_False)
      also have "\<dots> = map Some (List.map_filter rrn_number (f # fs))"
        by (simp only: Cons.IH) (simp add: map_filter_simps n)
      finally show ?thesis .
    qed
  qed
  then show ?thesis by (simp only: P)
qed

lemma getNextRRN_eq:
  "getNextRRN robotsDir = ''RRN-'' @ padStart (toString (Max (set (0 # rrn_numbers robotsDir)) + 1)) 8 CHR ''0''"
proof -
  let ?ns = "rrn_numbers robotsDir"
  have "(case map Some ?ns of [] \<Rightarrow> Some 0 | x # xs \<Rightarrow> foldl js_max x xs) = Some (Max (set (0 # ?ns)))"
  proof (cases ?ns)
    case Nil then show ?thesis by simp
  next
    case (Cons x xs)
    have "Max (set (0 # x # xs)) = Max (set (x # xs))" by (simp add: max_def)
    with Cons show ?thesis by (simp add: foldl_js_max foldl_max_Max del: set_simps)
  qed
  then show ?thesis
    unfolding getNextRRN_def Let_def readdirSync_def rrns_eq rrn_numbers_def by simp
qed

lemma parseInt_3_7: "parseInt ''00000003'' = Some 3" "parseInt ''00000007'' = Some 7"
  by (simp_all add: parseInt_def is_digit_def digit_val_def)

lemma toString_small: "toString (Suc 0) = ''1''" "toString 8 = ''8''"
proof -
  have "digit_chr (Suc 0) = CHR ''1''" using digit_chr_simps(2) by simp
  then show "toString (Suc 0) = ''1''" by (simp add: toString.simps [of "Suc 0"])
  show "toString 8 = ''8''" by (simp add: toString.simps [of 8] digit_chr_simps)
qed

lemma padStart_single: "padStart [c] 8 z = [z, z, z, z, z, z, z, c]"
  by (simp add: padStart_def numeral_eq_Suc)

lemma getNextRRN_empty: "getNextRRN [] = ''RRN-00000001''"
  by (simp add: getNextRRN_eq rrn_numbers_def map_filter_simps toString_small padStart_single)

text \<open>
  C4. Allocation: the next identifier is \<open>RRN-\<close> followed by one more than the largest number
  carried by a file named \<open>RRN-\<close>, eight digits, \<open>.yaml\<close> (0 when there is none), padded with
  zeros to eight digits; files with other names do not count. An empty store gives
  \<open>RRN-00000001\<close>, a store holding the numbers 3 and 7 gives \<open>RRN-00000008\<close>.
\<close>

theorem allocation_is_max_plus_one:
  "getNextRRN robotsDir
     = ''RRN-'' @ padStart (toString (Max (set (0 # rrn_numbers robotsDir)) + 1)) 8 CHR ''0''
   \<and> getNextRRN [] = ''RRN-00000001''
   \<and> getNextRRN [(''RRN-00000003.yaml'', c1), (''notes.yaml'', c2), (''RRN-00000007.yaml'', c3),
                  (''RRN-99.yaml'', c4)] = ''RRN-00000008''"
proof (intro conjI)
  show "getNextRRN robotsDir
     = ''RRN-'' @ padStart (toString (Max (set (0 # rrn_numbers robotsDir)) + 1)) 8 CHR ''0''"
    by (rule getNextRRN_eq)
  show "getNextRRN [] = ''RRN-00000001''" by (rule getNextRRN_empty)
  have "rrn_numbers [(''RRN-00000003.yaml'', c1), (''notes.yaml'', c2), (''RRN-00000007.yaml'', c3),
                  (''RRN-99.yaml'', c4)] = [3, 7]"
    by (simp add: rrn_numbers_def map_filter_simps rrn_number_def is_rrn_file_def is_digit_def parseInt_3_7)
  then show "getNextRRN [(''RRN-00000003.yaml'', c1), (''notes.yaml'', c2), (''RRN-00000007.yaml'', c3),
                  (''RRN-99.yaml'', c4)] = ''RRN-00000008''"
    by (simp add: getNextRRN_eq toString_small padStart_single)
qed

subsection \<open>The end-to-end example\<close>

lemma ex_sync_parse:
  "parseRURI_sync ''rcan://example.com/acme/arm-bot/deadbeef'' =
     Some \<lparr> registry = ''example.com'', manufacturer = ''acme'', model = ''arm-bot'',
            deviceId = ''deadbeef'', port = None, capability = None,
            raw = ''rcan://example.com/acme/arm-bot/deadbeef'' \<rparr>"
  using parseRURI_sync_text [OF ex_ok] unfolding ex_plain_text
  by (simp add: port_of_def strip_capability_def)

lemma ex_url:
  "ruriToHttpUrl \<lparr> registry = ''example.com'', manufacturer = ''acme'', model = ''arm-bot'',
            deviceId = ''deadbeef'', port = None, capability = None,
            raw = ''rcan://example.com/acme/arm-bot/deadbeef'' \<rparr>
     = ''https://example.com:8080/.well-known/rcan-manifest.json''"
  by (simp add: ruriToHttpUrl_def toString_8080)

lemma ex_sync:
  "syncRURI ''rcan://example.com/acme/arm-bot/deadbeef'' [] dryRun ex_net today =
     (if dryRun then ([], Previewed False ''RRN-00000001'' (manifestToYaml ex_manifest ''RRN-00000001'' today))
      else ([(''RRN-00000001.yaml'', manifestToYaml ex_manifest ''RRN-00000001'' today)],
            Persisted False ''RRN-00000001''))"
  by (simp add: syncRURI_def ex_sync_parse ex_url ex_net_def getNextRRN_empty Let_def)

lemma ex_yamlLines:
  "yamlLines ex_manifest ''RRN-00000001'' today =
     [''rrn: '' @ quoted ''RRN-00000001'',
      ''name: '' @ quoted ''ArmBot'',
      ''manufacturer: '' @ quoted ''Acme'',
      ''model: '' @ quoted ''arm-bot'',
      ''description: '' @ quoted ''Robot registered via RCAN protocol'',
      ''status: '' @ quoted ''retired'',
      [], [],
      ''ruri: '' @ quoted ''rcan://example.com/acme/arm-bot/deadbeef'',
      [],
      ''submitted_by: '' @ quoted ''rcan-auto-sync'',
      ''submitted_date: '' @ quoted today,
      ''tags:'',
      ''  - '' @ quoted ''rcan-synced'',
      ''  - '' @ quoted ''grasp'']"
  by (simp add: yamlLines_def ex_manifest_def or_else_def record_status_def link_def str_line_def
      capabilities_of_def)

text \<open>
  C5. The example manifest, reconciled into an empty store, is written to \<open>RRN-00000001.yaml\<close>;
  the record carries the identifier \<open>RRN-00000001\<close>, the status \<open>retired\<close> and the tags
  \<open>rcan-synced\<close> and \<open>grasp\<close> (\<open>rcan-registered\<close> and \<open>grasp\<close> in the registry data of the
  validator module). For every manifest the status written is \<open>retired\<close> when the manifest
  status is \<open>offline\<close> and \<open>active\<close> otherwise, also when it is absent.
\<close>

theorem example_manifest_record:
  "syncRURI ''rcan://example.com/acme/arm-bot/deadbeef'' [] False ex_net today
     = ([(''RRN-00000001.yaml'', manifestToYaml ex_manifest ''RRN-00000001'' today)],
        Persisted False ''RRN-00000001'')
   \<and> manifestToYaml ex_manifest ''RRN-00000001'' today
     = join [''rrn: '' @ quoted ''RRN-00000001'',
             ''name: '' @ quoted ''ArmBot'',
             ''manufacturer: '' @ quoted ''Acme'',
             ''model: '' @ quoted ''arm-bot'',
             ''description: '' @ quoted ''Robot registered via RCAN protocol'',
             ''status: '' @ quoted ''retired'',
             [], [],
             ''ruri: '' @ quoted ''rcan://example.com/acme/arm-bot/deadbeef'',
             [],
             ''submitted_by: '' @ quoted ''rcan-auto-sync'',
             ''submitted_date: '' @ quoted today,
             ''tags:'',
             ''  - '' @ quoted ''rcan-synced'',
             ''  - '' @ quoted ''grasp''] @ [nl]
   \<and> map_option (\<lambda>d. (rd_rrn d, rd_status d, rd_tags d))
        (manifestToRegistryData ex_manifest ''RRN-00000001'' today)
     = Some (''RRN-00000001'', ''retired'', [''rcan-registered'', ''grasp''])
   \<and> yamlLines m rrn today ! 5
     = ''status: '' @ quoted (if m_status m = Some ''offline'' then ''retired'' else ''active'')
   \<and> map_option rd_status (manifestToRegistryData m rrn today)
     = (if m_ruri m = Bool True then None
        else Some (if m_status m = Some ''offline'' then ''retired'' else ''active''))"
proof (intro conjI)
  show "syncRURI ''rcan://example.com/acme/arm-bot/deadbeef'' [] False ex_net today
     = ([(''RRN-00000001.yaml'', manifestToYaml ex_manifest ''RRN-00000001'' today)],
        Persisted False ''RRN-00000001'')"
    by (simp add: ex_sync)
  show "manifestToYaml ex_manifest ''RRN-00000001'' today
     = join [''rrn: '' @ quoted ''RRN-00000001'',
             ''name: '' @ quoted ''ArmBot'',
             ''manufacturer: '' @ quoted ''Acme'',
             ''model: '' @ quoted ''arm-bot'',
             ''description: '' @ quoted ''Robot registered via RCAN protocol'',
             ''status: '' @ quoted ''retired'',
             [], [],
             ''ruri: '' @ quoted ''rcan://example.com/acme/arm-bot/deadbeef'',
             [],
             ''submitted_by: '' @ quoted ''rcan-auto-sync'',
             ''submitted_date: '' @ quoted today,
             ''tags:'',
             ''  - '' @ quoted ''rcan-synced'',
             ''  - '' @ quoted ''grasp''] @ [nl]"
    unfolding manifestToYaml_def ex_yamlLines ..
  show "map_option (\<lambda>d. (rd_rrn d, rd_status d, rd_tags d))
        (manifestToRegistryData ex_manifest ''RRN-00000001'' today)
     = Some (''RRN-00000001'', ''retired'', [''rcan-registered'', ''grasp''])"
    by (simp add: manifestToRegistryData_def ex_manifest_def record_status_def capabilities_of_def)
  show "yamlLines m rrn today ! 5
     = ''status: '' @ quoted (if m_status m = Some ''offline'' then ''retired'' else ''active'')"
    by (simp add: yamlLines_def record_status_def numeral_eq_Suc)
  show "map_option rd_status (manifestToRegistryData m rrn today)
     = (if m_ruri m = Bool True then None
        else Some (if m_status m = Some ''offline'' then ''retired'' else ''active''))"
    by (simp add: manifestToRegistryData_def record_status_def)
qed

subsection \<open>Dry runs\<close>

lemma dry_run_dir: "fst (syncRURI ruri robotsDir True net today) = robotsDir"
  by (simp add: syncRURI_def Let_def split: option.splits sum.splits)

lemma sync_each_dry: "sync_each runs True robotsDir = robotsDir"
  by (induction runs True robotsDir rule: sync_each.induct) (simp_all add: dry_run_dir)

text \<open>
  C6. A dry run returns the directory it was given, and so does any sequence of dry runs. When
  the target parses and the fetch succeeds, the run previews the record that the same run
  without the flag writes: the same identifier (the one of the existing record of the source,
  or else the next free one), the same update-or-create flag and the same YAML text, which the
  run without the flag puts in the file of that identifier.
\<close>

theorem dry_run_leaves_store:
  "fst (syncRURI ruri robotsDir True net today) = robotsDir
   \<and> sync_each runs True robotsDir = robotsDir
   \<and> (parseRURI_sync ruri = Some p \<and> net (ruriToHttpUrl p) = Inr m \<longrightarrow>
        (\<exists>found rrn.
           rrn = (case findExistingByRURI robotsDir ruri of
                    None \<Rightarrow> getNextRRN robotsDir
                  | Some r \<Rightarrow> if r \<noteq> [] then r else getNextRRN robotsDir)
           \<and> found = (case findExistingByRURI robotsDir ruri of None \<Rightarrow> False | Some r \<Rightarrow> r \<noteq> [])
           \<and> syncRURI ruri robotsDir True net today
               = (robotsDir, Previewed found rrn (manifestToYaml m rrn today))
           \<and> syncRURI ruri robotsDir False net today
               = (writeFileSync robotsDir (rrn @ ''.yaml'') (manifestToYaml m rrn today),
                  Persisted found rrn)))"
proof (intro conjI impI)
  show "fst (syncRURI ruri robotsDir True net today) = robotsDir" by (rule dry_run_dir)
  show "sync_each runs True robotsDir = robotsDir" by (rule sync_each_dry)
  assume "parseRURI_sync ruri = Some p \<and> net (ruriToHttpUrl p) = Inr m"
  then show "\<exists>found rrn.
           rrn = (case findExistingByRURI robotsDir ruri of
                    None \<Rightarrow> getNextRRN robotsDir
                  | Some r \<Rightarrow> if r \<noteq> [] then r else getNextRRN robotsDir)
           \<and> found = (case findExistingByRURI robotsDir ruri of None \<Rightarrow> False | Some r \<Rightarrow> r \<noteq> [])
           \<and> syncRURI ruri robotsDir True net today
               = (robotsDir, Previewed found rrn (manifestToYaml m rrn today))
           \<and> syncRURI ruri robotsDir False net today
               = (writeFileSync robotsDir (rrn @ ''.yaml'') (manifestToYaml m rrn today),
                  Persisted found rrn)"
    by (simp add: syncRURI_def Let_def)
qed

lemma readme_find: "findExistingByRURI [(''README.md'', ''x'')] ruri = None"
  by (simp add: holds_def endsWith_def)

lemma readme_next: "getNextRRN [(''README.md'', ''x'')] = ''RRN-00000001''"
proof -
  have "rrn_numbers [(''README.md'', ''x'')] = []"
    by (simp add: rrn_numbers_def map_filter_simps rrn_number_def is_rrn_file_def)
  then show ?thesis by (simp add: getNextRRN_eq toString_small padStart_single)
qed

theorem dry_run_leaves_store_witness:
  "parseRURI_sync ''rcan://example.com/acme/arm-bot/deadbeef'' =
     Some \<lparr> registry = ''example.com'', manufacturer = ''acme'', model = ''arm-bot'',
            deviceId = ''deadbeef'', port = None, capability = None,
            raw = ''rcan://example.com/acme/arm-bot/deadbeef'' \<rparr>
   \<and> ex_net (ruriToHttpUrl \<lparr> registry = ''example.com'', manufacturer = ''acme'', model = ''arm-bot'',
            deviceId = ''deadbeef'', port = None, capability = None,
            raw = ''rcan://example.com/acme/arm-bot/deadbeef'' \<rparr>) = Inr ex_manifest
   \<and> fst (syncRURI ''rcan://example.com/acme/arm-bot/deadbeef'' [(''README.md'', ''x'')] True ex_net ''2026-11-02'')
       = [(''README.md'', ''x'')]
   \<and> sync_each [(''rcan://example.com/acme/arm-bot/deadbeef'', ex_net, ''2026-11-02''),
                 (''rcan://example.com/acme/arm-bot/deadbeef'', ex_net, ''2026-11-03'')] True [(''README.md'', ''x'')]
       = [(''README.md'', ''x'')]
   \<and> syncRURI ''rcan://example.com/acme/arm-bot/deadbeef'' [(''README.md'', ''x'')] True ex_net ''2026-11-02''
       = ([(''README.md'', ''x'')],
          Previewed False ''RRN-00000001'' (manifestToYaml ex_manifest ''RRN-00000001'' ''2026-11-02''))
   \<and> syncRURI ''rcan://example.com/acme/arm-bot/deadbeef'' [(''README.md'', ''x'')] False ex_net ''2026-11-02''
       = ([(''README.md'', ''x''),
           (''RRN-00000001.yaml'', manifestToYaml ex_manifest ''RRN-00000001'' ''2026-11-02'')],
          Persisted False ''RRN-00000001'')"
proof -
  let ?t = "''rcan://example.com/acme/arm-bot/deadbeef''"
  let ?d = "[(''README.md'', ''x'')] :: dir"
  have u: "ex_net (ruriToHttpUrl \<lparr> registry = ''example.com'', manufacturer = ''acme'', model = ''arm-bot'',
            deviceId = ''deadbeef'', port = None, capability = None,
            raw = ''rcan://example.com/acme/arm-bot/deadbeef'' \<rparr>) = Inr ex_manifest"
    by (simp add: ex_url ex_net_def)
  note t = dry_run_leaves_store [of ?t ?d ex_net "''2026-11-02''"
      "[(''rcan://example.com/acme/arm-bot/deadbeef'', ex_net, ''2026-11-02''),
        (''rcan://example.com/acme/arm-bot/deadbeef'', ex_net, ''2026-11-03'')]"
      "\<lparr> registry = ''example.com'', manufacturer = ''acme'', model = ''arm-bot'',
            deviceId = ''deadbeef'', port = None, capability = None,
            raw = ''rcan://example.com/acme/arm-bot/deadbeef'' \<rparr>" ex_manifest]
  from t have 1: "fst (syncRURI ?t ?d True ex_net ''2026-11-02'') = ?d" by blast
  from t have 2: "sync_each [(?t, ex_net, ''2026-11-02''), (?t, ex_net, ''2026-11-03'')] True ?d = ?d"
    by blast
  from t ex_sync_parse u obtain found rrn
    where r: "rrn = (case findExistingByRURI ?d ?t of
                    None \<Rightarrow> getNextRRN ?d
                  | Some r \<Rightarrow> if r \<noteq> [] then r else getNextRRN ?d)"
      and f: "found = (case findExistingByRURI ?d ?t of None \<Rightarrow> False | Some r \<Rightarrow> r \<noteq> [])"
      and 3: "syncRURI ?t ?d True ex_net ''2026-11-02''
               = (?d, Previewed found rrn (manifestToYaml ex_manifest rrn ''2026-11-02''))"
      and 4: "syncRURI ?t ?d False ex_net ''2026-11-02''
               = (writeFileSync ?d (rrn @ ''.yaml'') (manifestToYaml ex_manifest rrn ''2026-11-02''),
                  Persisted found rrn)"
    by blast
  from r have r': "rrn = ''RRN-00000001''" unfolding readme_find readme_next by simp
  from f have f': "found = False" unfolding readme_find by simp
  from 3 have pv: "syncRURI ?t ?d True ex_net ''2026-11-02''
       = (?d, Previewed False ''RRN-00000001'' (manifestToYaml ex_manifest ''RRN-00000001'' ''2026-11-02''))"
    unfolding r' f' .
  from 4 have wr: "syncRURI ?t ?d False ex_net ''2026-11-02''
       = ([(''README.md'', ''x''),
           (''RRN-00000001.yaml'', manifestToYaml ex_manifest ''RRN-00000001'' ''2026-11-02'')],
          Persisted False ''RRN-00000001'')"
    unfolding r' f' by simp
  from ex_sync_parse u 1 2 pv wr show ?thesis by blast
qed

subsection \<open>No validation in the sync script\<close>







subsection \<open>Looking a record up by the line of its source\<close>

lemma includes_prefix: "startsWith s t \<Longrightarrow> includes_str s t"
  by (cases s) (auto simp add: startsWith_def)

lemma includes_append: "includes_str (a @ l @ b) l"
proof (induction a)
  case Nil
  have "startsWith (l @ b) l" by (simp add: startsWith_def)
  then show ?case by (simp add: includes_prefix)
next
  case (Cons x a)
  then show ?case by simp
qed

lemma join_mem: "l \<in> set ls \<Longrightarrow> \<exists>a b. join ls = a @ l @ b"
proof (induction ls rule: join.induct)
  case 1
  then show ?case by simp
next
  case (2 k)
  then have "join [k] = [] @ l @ []" by simp
  then show ?case by blast
next
  case (3 k v va)
  show ?case
  proof (cases "l = k")
    case True
    then have "join (k # v # va) = [] @ l @ (nl # join (v # va))" by simp
    then show ?thesis by blast
  next
    case False
    with 3 obtain a b where "join (v # va) = a @ l @ b" by auto
    then have "join (k # v # va) = (k @ nl # a) @ l @ b" by simp
    then show ?thesis by blast
  qed
qed

lemma yaml_has_ruri: "includes_str (manifestToYaml m rrn today) (ruri_line (to_str (m_ruri m)))"
proof -
  have "ruri_line (to_str (m_ruri m)) \<in> set (yamlLines m rrn today)"
    by (simp add: yamlLines_def ruri_line_def)
  from join_mem [OF this] obtain a b
    where "join (yamlLines m rrn today) = a @ ruri_line (to_str (m_ruri m)) @ b" by blast
  then have "manifestToYaml m rrn today = a @ ruri_line (to_str (m_ruri m)) @ (b @ [nl])"
    by (simp add: manifestToYaml_def)
  then show ?thesis by (simp only: includes_append)
qed

lemma holds_written:
  "m_ruri m = Str ruri \<Longrightarrow> holds ruri (r @ ''.yaml'', manifestToYaml m r today)"
  using yaml_has_ruri [of m r today] by (simp add: holds_def endsWith_def)

lemma replace_stem: "CHR ''.'' \<notin> set a \<Longrightarrow> replace_first (a @ ''.yaml'') ''.yaml'' [] = a"
  by (induction a) (auto simp add: startsWith_def)

lemma digit_not_dot: "is_digit c \<Longrightarrow> c \<noteq> CHR ''.''"
  by (auto simp add: is_digit_def)

lemma digits_no_dot: "list_all is_digit ds \<Longrightarrow> CHR ''.'' \<notin> set ds"
  using digit_not_dot by (auto simp add: list_all_iff)

lemma getNextRRN_stem: "CHR ''.'' \<notin> set (getNextRRN d) \<and> getNextRRN d \<noteq> []"
proof -
  have "CHR ''.'' \<notin> set (toString n)" for n
    using toString_digits [of n] digits_no_dot by blast
  then show ?thesis by (simp add: getNextRRN_eq padStart_def)
qed

lemma rrn_file_stem:
  assumes "is_rrn_file f"
  shows "\<exists>a. f = a @ ''.yaml'' \<and> CHR ''.'' \<notin> set a \<and> a \<noteq> []"
proof -
  from assms obtain ds where f: "f = ''RRN-'' @ ds @ ''.yaml''" and d: "list_all is_digit ds"
    unfolding is_rrn_file_iff by blast
  from d have "CHR ''.'' \<notin> set (''RRN-'' @ ds)" using digits_no_dot [of ds] by simp
  moreover have "f = (''RRN-'' @ ds) @ ''.yaml''" using f by simp
  ultimately show ?thesis by blast
qed

lemma find_None_iff: "findExistingByRURI d ruri = None \<longleftrightarrow> (\<forall>e\<in>set d. \<not> holds ruri e)"
  by (induction d) auto

lemma find_SomeD:
  "findExistingByRURI d ruri = Some r \<Longrightarrow>
     \<exists>e\<in>set d. holds ruri e \<and> r = replace_first (fst e) ''.yaml'' []"
  by (induction d) (auto split: if_splits)

lemma one_holder:
  assumes "records_for ruri d \<le> 1" "e \<in> set d" "holds ruri e" "e' \<in> set d" "holds ruri e'"
  shows "e' = e"
proof -
  let ?xs = "filter (holds ruri) d"
  have "e \<in> set ?xs" "e' \<in> set ?xs" using assms by simp_all
  moreover have "length ?xs \<le> 1" using assms(1) by (simp add: records_for_def)
  ultimately show ?thesis by (cases ?xs) auto
qed

lemma write_names:
  "map fst (writeFileSync d f c) = (if f \<in> set (map fst d) then map fst d else map fst d @ [f])"
proof (induction d)
  case Nil
  show ?case by simp
next
  case (Cons x d)
  obtain g c0 where x: "x = (g, c0)" by (cases x)
  show ?case
  proof (cases "g = f")
    case True
    with x show ?thesis by simp
  next
    case False
    with x Cons show ?thesis by simp
  qed
qed

lemma write_holder:
  assumes "distinct (map fst d)" "\<forall>e\<in>set d. holds ruri e \<longrightarrow> fst e = f" "holds ruri (f, c)"
  shows "(\<forall>e\<in>set (writeFileSync d f c). holds ruri e \<longrightarrow> fst e = f)
       \<and> records_for ruri (writeFileSync d f c) = 1
       \<and> findExistingByRURI (writeFileSync d f c) ruri = Some (replace_first f ''.yaml'' [])"
  using assms
proof (induction d)
  case Nil
  then show ?case by (simp add: records_for_def)
next
  case (Cons x d)
  obtain g c0 where x: "x = (g, c0)" by (cases x)
  show ?case
  proof (cases "g = f")
    case True
    have "\<not> holds ruri e" if "e \<in> set d" for e
    proof
      assume "holds ruri e"
      with that Cons.prems(2) have "fst e = f" by simp
      with that have "f \<in> set (map fst d)" by force
      with Cons.prems(1) x True show False by simp
    qed
    then have "filter (holds ruri) d = []" by (simp add: filter_empty_conv)
    with True x Cons.prems(3) show ?thesis
      by (auto simp add: records_for_def filter_empty_conv)
  next
    case False
    with Cons.prems(2) x have nh: "\<not> holds ruri (g, c0)" by auto
    have "(\<forall>e\<in>set (writeFileSync d f c). holds ruri e \<longrightarrow> fst e = f)
       \<and> records_for ruri (writeFileSync d f c) = 1
       \<and> findExistingByRURI (writeFileSync d f c) ruri = Some (replace_first f ''.yaml'' [])"
      using Cons.IH Cons.prems by simp
    with False x nh show ?thesis by (simp add: records_for_def)
  qed
qed

lemma write_distinct: "distinct (map fst d) \<Longrightarrow> distinct (map fst (writeFileSync d f c))"
  by (simp add: write_names)

text \<open>
  A directory is keyed for a source by \<open>r\<close> when its one record for the source is the file
  \<open>r.yaml\<close>. A run keeps that, reports \<open>r\<close> and adds no file.
\<close>

lemma sync_keyed:
  assumes dist: "distinct (map fst d)"
    and named: "\<forall>e\<in>set d. holds ruri e \<longrightarrow> fst e = r @ ''.yaml''"
    and found: "findExistingByRURI d ruri = Some r"
    and stem: "r \<noteq> []" "CHR ''.'' \<notin> set r"
    and p: "parseRURI_sync ruri = Some p"
    and n: "net (ruriToHttpUrl p) = Inr m"
    and m: "m_ruri m = Str ruri"
  shows "syncRURI ruri d False net today
           = (writeFileSync d (r @ ''.yaml'') (manifestToYaml m r today), Persisted True r)"
    and "distinct (map fst (writeFileSync d (r @ ''.yaml'') (manifestToYaml m r today)))"
    and "\<forall>e\<in>set (writeFileSync d (r @ ''.yaml'') (manifestToYaml m r today)).
            holds ruri e \<longrightarrow> fst e = r @ ''.yaml''"
    and "findExistingByRURI (writeFileSync d (r @ ''.yaml'') (manifestToYaml m r today)) ruri = Some r"
    and "records_for ruri (writeFileSync d (r @ ''.yaml'') (manifestToYaml m r today)) = 1"
    and "map fst (writeFileSync d (r @ ''.yaml'') (manifestToYaml m r today)) = map fst d"
proof -
  let ?c = "manifestToYaml m r today"
  show "syncRURI ruri d False net today = (writeFileSync d (r @ ''.yaml'') ?c, Persisted True r)"
    using p n found stem(1) by (simp add: syncRURI_def Let_def)
  show "distinct (map fst (writeFileSync d (r @ ''.yaml'') ?c))"
    using dist by (rule write_distinct)
  note w = write_holder [OF dist named holds_written [OF m, of r today]]
  from w show "\<forall>e\<in>set (writeFileSync d (r @ ''.yaml'') ?c). holds ruri e \<longrightarrow> fst e = r @ ''.yaml''"
    by blast
  from w show "findExistingByRURI (writeFileSync d (r @ ''.yaml'') ?c) ruri = Some r"
    by (simp only: replace_stem [OF stem(2)])
  from w show "records_for ruri (writeFileSync d (r @ ''.yaml'') ?c) = 1" by blast
  from find_SomeD [OF found] obtain e where e: "e \<in> set d" "holds ruri e" by blast
  with named have "fst e = r @ ''.yaml''" by blast
  with e(1) have "r @ ''.yaml'' \<in> set (map fst d)" by force
  then show "map fst (writeFileSync d (r @ ''.yaml'') ?c) = map fst d"
    by (simp only: write_names if_True)
qed

lemma sync_each_keyed:
  assumes p: "parseRURI_sync ruri = Some p"
    and n: "net (ruriToHttpUrl p) = Inr m"
    and m: "m_ruri m = Str ruri"
    and stem: "r \<noteq> []" "CHR ''.'' \<notin> set r"
  shows "distinct (map fst d) \<Longrightarrow> \<forall>e\<in>set d. holds ruri e \<longrightarrow> fst e = r @ ''.yaml'' \<Longrightarrow>
     findExistingByRURI d ruri = Some r \<Longrightarrow> records_for ruri d = 1 \<Longrightarrow>
     distinct (map fst (sync_each (map (\<lambda>t. (ruri, net, t)) days) False d))
     \<and> (\<forall>e\<in>set (sync_each (map (\<lambda>t. (ruri, net, t)) days) False d).
            holds ruri e \<longrightarrow> fst e = r @ ''.yaml'')
     \<and> findExistingByRURI (sync_each (map (\<lambda>t. (ruri, net, t)) days) False d) ruri = Some r
     \<and> records_for ruri (sync_each (map (\<lambda>t. (ruri, net, t)) days) False d) = 1
     \<and> map fst (sync_each (map (\<lambda>t. (ruri, net, t)) days) False d) = map fst d"
proof (induction days arbitrary: d)
  case Nil
  then show ?case by simp
next
  case (Cons t days)
  let ?d = "writeFileSync d (r @ ''.yaml'') (manifestToYaml m r t)"
  note s = sync_keyed [where net = net and today = t, OF Cons.prems(1) Cons.prems(2) Cons.prems(3) stem p n m]
  have e: "sync_each (map (\<lambda>t. (ruri, net, t)) (t # days)) False d
         = sync_each (map (\<lambda>t. (ruri, net, t)) days) False ?d"
    by (simp add: s(1))
  note i = Cons.IH [OF s(2) s(3) s(4) s(5)]
  from i have "map fst (sync_each (map (\<lambda>t. (ruri, net, t)) days) False ?d) = map fst ?d"
    by blast
  then have "map fst (sync_each (map (\<lambda>t. (ruri, net, t)) days) False ?d) = map fst d"
    by (simp only: s(6))
  with i show ?case unfolding e by blast
qed

text \<open>The first run on a directory with at most one record for the source, named as records are.\<close>

lemma sync_first:
  assumes dist: "distinct (map fst d)"
    and named: "\<forall>e\<in>set d. holds ruri e \<longrightarrow> is_rrn_file (fst e)"
    and one: "records_for ruri d \<le> 1"
    and p: "parseRURI_sync ruri = Some p"
    and n: "net (ruriToHttpUrl p) = Inr m"
    and m: "m_ruri m = Str ruri"
  shows "\<exists>r found. r \<noteq> [] \<and> CHR ''.'' \<notin> set r
     \<and> syncRURI ruri d False net today = (fst (syncRURI ruri d False net today), Persisted found r)
     \<and> distinct (map fst (fst (syncRURI ruri d False net today)))
     \<and> (\<forall>e\<in>set (fst (syncRURI ruri d False net today)). holds ruri e \<longrightarrow> fst e = r @ ''.yaml'')
     \<and> findExistingByRURI (fst (syncRURI ruri d False net today)) ruri = Some r
     \<and> records_for ruri (fst (syncRURI ruri d False net today)) = 1"
proof (cases "findExistingByRURI d ruri")
  case None
  let ?r = "getNextRRN d"
  let ?d = "writeFileSync d (?r @ ''.yaml'') (manifestToYaml m ?r today)"
  have s: "syncRURI ruri d False net today = (?d, Persisted False ?r)"
    using p n None by (simp add: syncRURI_def Let_def)
  from None have "\<forall>e\<in>set d. holds ruri e \<longrightarrow> fst e = ?r @ ''.yaml''"
    by (simp add: find_None_iff)
  note w = write_holder [OF dist this holds_written [OF m, of ?r today]]
  have st: "?r \<noteq> []" "CHR ''.'' \<notin> set ?r" using getNextRRN_stem [of d] by simp_all
  have f: "findExistingByRURI ?d ruri = Some ?r"
    using w by (simp only: replace_stem [OF st(2)])
  have "?r \<noteq> [] \<and> CHR ''.'' \<notin> set ?r
     \<and> syncRURI ruri d False net today = (fst (syncRURI ruri d False net today), Persisted False ?r)
     \<and> distinct (map fst (fst (syncRURI ruri d False net today)))
     \<and> (\<forall>e\<in>set (fst (syncRURI ruri d False net today)). holds ruri e \<longrightarrow> fst e = ?r @ ''.yaml'')
     \<and> findExistingByRURI (fst (syncRURI ruri d False net today)) ruri = Some ?r
     \<and> records_for ruri (fst (syncRURI ruri d False net today)) = 1"
    unfolding s fst_conv using st w f write_distinct [OF dist] by blast
  then show ?thesis by blast
next
  case (Some r)
  from find_SomeD [OF Some] obtain e
    where e: "e \<in> set d" "holds ruri e" "r = replace_first (fst e) ''.yaml'' []" by blast
  from named e have "is_rrn_file (fst e)" by blast
  from rrn_file_stem [OF this] obtain a
    where a: "fst e = a @ ''.yaml''" "CHR ''.'' \<notin> set a" "a \<noteq> []" by blast
  have r: "r = a" using e(3) a(1) replace_stem [OF a(2)] by simp
  have nm: "\<forall>e'\<in>set d. holds ruri e' \<longrightarrow> fst e' = r @ ''.yaml''"
    using one_holder [OF one e(1) e(2)] a(1) r by blast
  have st: "r \<noteq> []" "CHR ''.'' \<notin> set r" using a r by simp_all
  note s = sync_keyed [where net = net and today = today, OF dist nm Some st p n m]
  have "r \<noteq> [] \<and> CHR ''.'' \<notin> set r
     \<and> syncRURI ruri d False net today = (fst (syncRURI ruri d False net today), Persisted True r)
     \<and> distinct (map fst (fst (syncRURI ruri d False net today)))
     \<and> (\<forall>e\<in>set (fst (syncRURI ruri d False net today)). holds ruri e \<longrightarrow> fst e = r @ ''.yaml'')
     \<and> findExistingByRURI (fst (syncRURI ruri d False net today)) ruri = Some r
     \<and> records_for ruri (fst (syncRURI ruri d False net today)) = 1"
    unfolding s(1) fst_conv using st s(2) s(3) s(4) s(5) by blast
  then show ?thesis by blast
qed

subsection \<open>Repeated syncs of one source\<close>

lemma moved_sync_first:
  "syncRURI ''rcan://example.com/acme/arm-bot/deadbeef'' [] False moved_net today =
     ([(''RRN-00000001.yaml'', manifestToYaml moved_manifest ''RRN-00000001'' today)],
      Persisted False ''RRN-00000001'')"
  by (simp add: syncRURI_def ex_sync_parse ex_url moved_net_def getNextRRN_empty Let_def)

lemma moved_yaml:
  "manifestToYaml moved_manifest ''RRN-00000001'' ''2026-11-02'' =
     ''rrn: '' @ quoted ''RRN-00000001'' @ nl #
     ''name: '' @ quoted ''ArmBot'' @ nl #
     ''manufacturer: '' @ quoted ''Acme'' @ nl #
     ''model: '' @ quoted ''arm-bot'' @ nl #
     ''description: '' @ quoted ''Robot registered via RCAN protocol'' @ nl #
     ''status: '' @ quoted ''retired'' @ nl #
     nl # nl #
     ''ruri: '' @ quoted ''rcan://example.com/acme/arm-bot/cafebabe'' @ nl #
     nl #
     ''submitted_by: '' @ quoted ''rcan-auto-sync'' @ nl #
     ''submitted_date: '' @ quoted ''2026-11-02'' @ nl #
     ''tags:'' @ nl #
     ''  - '' @ quoted ''rcan-synced'' @ nl #
     ''  - '' @ quoted ''grasp'' @ [nl]"
  by (simp add: manifestToYaml_def yamlLines_def moved_manifest_def ex_manifest_def or_else_def
      record_status_def link_def str_line_def capabilities_of_def)

lemma moved_not_found:
  "\<not> includes_str (manifestToYaml moved_manifest ''RRN-00000001'' ''2026-11-02'')
       (ruri_line ''rcan://example.com/acme/arm-bot/deadbeef'')"
  unfolding moved_yaml by (simp add: ruri_line_def quoted_def dq_def nl_def startsWith_def)


lemma parseInt_1: "parseInt ''00000001'' = Some 1"
  by (simp add: parseInt_def is_digit_def digit_val_def)

lemma toString_2: "toString 2 = ''2''"
  by (simp add: toString.simps [of 2] digit_chr_simps)

lemma getNextRRN_one: "getNextRRN [(''RRN-00000001.yaml'', c)] = ''RRN-00000002''"
proof -
  have "rrn_numbers [(''RRN-00000001.yaml'', c)] = [1]"
    by (simp add: rrn_numbers_def map_filter_simps rrn_number_def is_rrn_file_def is_digit_def
        parseInt_1)
  moreover have "Max (set (0 # [1::nat])) + 1 = 2" by simp
  ultimately show ?thesis unfolding getNextRRN_eq by (simp only: toString_2 padStart_single) simp
qed

lemma moved_sync_second:
  "syncRURI ''rcan://example.com/acme/arm-bot/deadbeef''
      [(''RRN-00000001.yaml'', manifestToYaml moved_manifest ''RRN-00000001'' ''2026-11-02'')]
      False moved_net ''2026-11-02'' =
     ([(''RRN-00000001.yaml'', manifestToYaml moved_manifest ''RRN-00000001'' ''2026-11-02''),
       (''RRN-00000002.yaml'', manifestToYaml moved_manifest ''RRN-00000002'' ''2026-11-02'')],
      Persisted False ''RRN-00000002'')"
  by (simp add: syncRURI_def ex_sync_parse ex_url moved_net_def getNextRRN_one Let_def holds_def
      moved_not_found)

lemma holds_line: "holds ruri (r @ ''.yaml'', ruri_line ruri)"
  using includes_append [of "[]" "ruri_line ruri" "[]"] by (simp add: holds_def endsWith_def)

lemma ex_holds: "holds ''rcan://example.com/acme/arm-bot/deadbeef'' (r @ ''.yaml'', manifestToYaml ex_manifest r today)"
  by (rule holds_written) (simp add: ex_manifest_def)

lemma double_sync:
  assumes "holds ''rcan://example.com/acme/arm-bot/deadbeef'' (''RRN-00000001.yaml'', c)"
  shows "syncRURI ''rcan://example.com/acme/arm-bot/deadbeef''
      [(''RRN-00000001.yaml'', c), (''RRN-00000002.yaml'', c')] False ex_net today
   = ([(''RRN-00000001.yaml'', manifestToYaml ex_manifest ''RRN-00000001'' today),
       (''RRN-00000002.yaml'', c')], Persisted True ''RRN-00000001'')"
  using assms by (simp add: syncRURI_def ex_sync_parse ex_url ex_net_def Let_def startsWith_def)

theorem two_syncs_two_identifiers:
  "rrn_of (snd (syncRURI ''rcan://example.com/acme/arm-bot/deadbeef'' [] False moved_net ''2026-11-02''))
     = Some ''RRN-00000001''
   \<and> rrn_of (snd (syncRURI ''rcan://example.com/acme/arm-bot/deadbeef''
         (fst (syncRURI ''rcan://example.com/acme/arm-bot/deadbeef'' [] False moved_net ''2026-11-02''))
         False moved_net ''2026-11-02''))
     = Some ''RRN-00000002''
   \<and> map fst (fst (syncRURI ''rcan://example.com/acme/arm-bot/deadbeef''
         (fst (syncRURI ''rcan://example.com/acme/arm-bot/deadbeef'' [] False moved_net ''2026-11-02''))
         False moved_net ''2026-11-02''))
     = [''RRN-00000001.yaml'', ''RRN-00000002.yaml'']
   \<and> records_for ''rcan://example.com/acme/arm-bot/deadbeef''
        (fst (syncRURI ''rcan://example.com/acme/arm-bot/deadbeef''
           (fst (syncRURI ''rcan://example.com/acme/arm-bot/deadbeef''
              [(''RRN-00000001.yaml'', ruri_line ''rcan://example.com/acme/arm-bot/deadbeef''),
               (''RRN-00000002.yaml'', ruri_line ''rcan://example.com/acme/arm-bot/deadbeef'')]
              False ex_net ''2026-11-02''))
           False ex_net ''2026-11-02''))
     = 2"
proof (intro conjI)
  show "rrn_of (snd (syncRURI ''rcan://example.com/acme/arm-bot/deadbeef'' [] False moved_net ''2026-11-02''))
     = Some ''RRN-00000001''"
    by (simp add: moved_sync_first)
  show "rrn_of (snd (syncRURI ''rcan://example.com/acme/arm-bot/deadbeef''
         (fst (syncRURI ''rcan://example.com/acme/arm-bot/deadbeef'' [] False moved_net ''2026-11-02''))
         False moved_net ''2026-11-02''))
     = Some ''RRN-00000002''"
    unfolding moved_sync_first fst_conv moved_sync_second by simp
  show "map fst (fst (syncRURI ''rcan://example.com/acme/arm-bot/deadbeef''
         (fst (syncRURI ''rcan://example.com/acme/arm-bot/deadbeef'' [] False moved_net ''2026-11-02''))
         False moved_net ''2026-11-02''))
     = [''RRN-00000001.yaml'', ''RRN-00000002.yaml'']"
    unfolding moved_sync_first fst_conv moved_sync_second by simp
  have h1: "holds ''rcan://example.com/acme/arm-bot/deadbeef''
      (''RRN-00000001.yaml'', ruri_line ''rcan://example.com/acme/arm-bot/deadbeef'')"
    using holds_line [of "''rcan://example.com/acme/arm-bot/deadbeef''" "''RRN-00000001''"] by simp
  have h2: "holds ''rcan://example.com/acme/arm-bot/deadbeef''
      (''RRN-00000002.yaml'', ruri_line ''rcan://example.com/acme/arm-bot/deadbeef'')"
    using holds_line [of "''rcan://example.com/acme/arm-bot/deadbeef''" "''RRN-00000002''"] by simp
  have h3: "holds ''rcan://example.com/acme/arm-bot/deadbeef''
      (''RRN-00000001.yaml'', manifestToYaml ex_manifest ''RRN-00000001'' ''2026-11-02'')"
    using ex_holds [of "''RRN-00000001''" "''2026-11-02''"] by simp
  show "records_for ''rcan://example.com/acme/arm-bot/deadbeef''
        (fst (syncRURI ''rcan://example.com/acme/arm-bot/deadbeef''
           (fst (syncRURI ''rcan://example.com/acme/arm-bot/deadbeef''
              [(''RRN-00000001.yaml'', ruri_line ''rcan://example.com/acme/arm-bot/deadbeef''),
               (''RRN-00000002.yaml'', ruri_line ''rcan://example.com/acme/arm-bot/deadbeef'')]
              False ex_net ''2026-11-02''))
           False ex_net ''2026-11-02''))
     = 2"
    unfolding double_sync [OF h1] fst_conv double_sync [OF h3]
    using h2 h3 by (simp add: records_for_def)
qed

text \<open>
  C1, as the code has it. Take a store whose files have distinct names and which holds at most
  one record for the source, in a file named \<open>RRN-\<close>, eight digits, \<open>.yaml\<close>; a target that
  parses; and a manifest snapshot, fetched with success, whose \<open>ruri\<close> field is the target
  string itself. Then the first run and every later run, on whatever day, report the same
  record identifier; after the first run and after any number of further runs the store holds
  exactly one record for the source, and the further runs add no file. (The record is looked
  up by the line \<open>ruri: "target"\<close>, which is written from the \<open>ruri\<close> field of the manifest.)
\<close>

theorem repeated_sync_reuses_identifier:
  assumes "distinct (map fst robotsDir)"
    and "\<forall>e\<in>set robotsDir. holds ruri e \<longrightarrow> is_rrn_file (fst e)"
    and "records_for ruri robotsDir \<le> 1"
    and "parseRURI_sync ruri = Some p"
    and "net (ruriToHttpUrl p) = Inr m"
    and "m_ruri m = Str ruri"
  shows "\<exists>rrn. rrn_of (snd (syncRURI ruri robotsDir False net today)) = Some rrn
     \<and> (\<forall>days day.
          rrn_of (snd (syncRURI ruri
             (sync_each (map (\<lambda>t. (ruri, net, t)) days) False
                (fst (syncRURI ruri robotsDir False net today)))
             False net day)) = Some rrn
        \<and> records_for ruri
             (sync_each (map (\<lambda>t. (ruri, net, t)) days) False
                (fst (syncRURI ruri robotsDir False net today))) = 1
        \<and> map fst
             (sync_each (map (\<lambda>t. (ruri, net, t)) days) False
                (fst (syncRURI ruri robotsDir False net today)))
           = map fst (fst (syncRURI ruri robotsDir False net today)))"
proof -
  let ?d1 = "fst (syncRURI ruri robotsDir False net today)"
  from sync_first [where net = net and today = today, OF assms]
  obtain r found where st: "r \<noteq> []" "CHR ''.'' \<notin> set r"
    and s: "syncRURI ruri robotsDir False net today = (?d1, Persisted found r)"
    and k: "distinct (map fst ?d1)" "\<forall>e\<in>set ?d1. holds ruri e \<longrightarrow> fst e = r @ ''.yaml''"
      "findExistingByRURI ?d1 ruri = Some r" "records_for ruri ?d1 = 1"
    by blast
  have first: "rrn_of (snd (syncRURI ruri robotsDir False net today)) = Some r"
    by (subst s) simp
  have later: "rrn_of (snd (syncRURI ruri
             (sync_each (map (\<lambda>t. (ruri, net, t)) days) False ?d1) False net day)) = Some r
        \<and> records_for ruri (sync_each (map (\<lambda>t. (ruri, net, t)) days) False ?d1) = 1
        \<and> map fst (sync_each (map (\<lambda>t. (ruri, net, t)) days) False ?d1) = map fst ?d1"
    for days day
  proof -
    let ?dn = "sync_each (map (\<lambda>t. (ruri, net, t)) days) False ?d1"
    from sync_each_keyed [where net = net and days = days, OF assms(4) assms(5) assms(6) st k]
    have kn: "distinct (map fst ?dn)" "\<forall>e\<in>set ?dn. holds ruri e \<longrightarrow> fst e = r @ ''.yaml''"
      "findExistingByRURI ?dn ruri = Some r" "records_for ruri ?dn = 1"
      "map fst ?dn = map fst ?d1"
      by blast+
    from sync_keyed(1) [where net = net and today = day, OF kn(1) kn(2) kn(3) st assms(4) assms(5) assms(6)]
    have "rrn_of (snd (syncRURI ruri ?dn False net day)) = Some r" by simp
    with kn(4) kn(5) show ?thesis by blast
  qed
  from first later show ?thesis by blast
qed

theorem repeated_sync_reuses_identifier_witness:
  "distinct (map fst ([] :: dir))
   \<and> records_for ''rcan://example.com/acme/arm-bot/deadbeef'' [] \<le> 1
   \<and> parseRURI_sync ''rcan://example.com/acme/arm-bot/deadbeef'' =
       Some \<lparr> registry = ''example.com'', manufacturer = ''acme'', model = ''arm-bot'',
              deviceId = ''deadbeef'', port = None, capability = None,
              raw = ''rcan://example.com/acme/arm-bot/deadbeef'' \<rparr>
   \<and> ex_net (ruriToHttpUrl \<lparr> registry = ''example.com'', manufacturer = ''acme'', model = ''arm-bot'',
              deviceId = ''deadbeef'', port = None, capability = None,
              raw = ''rcan://example.com/acme/arm-bot/deadbeef'' \<rparr>) = Inr ex_manifest
   \<and> m_ruri ex_manifest = Str ''rcan://example.com/acme/arm-bot/deadbeef''
   \<and> rrn_of (snd (syncRURI ''rcan://example.com/acme/arm-bot/deadbeef'' [] False ex_net ''2026-11-02''))
       = Some ''RRN-00000001''
   \<and> rrn_of (snd (syncRURI ''rcan://example.com/acme/arm-bot/deadbeef''
         (fst (syncRURI ''rcan://example.com/acme/arm-bot/deadbeef'' [] False ex_net ''2026-11-02''))
         False ex_net ''2026-11-03''))
       = Some ''RRN-00000001''
   \<and> records_for ''rcan://example.com/acme/arm-bot/deadbeef''
        (fst (syncRURI ''rcan://example.com/acme/arm-bot/deadbeef''
           (fst (syncRURI ''rcan://example.com/acme/arm-bot/deadbeef'' [] False ex_net ''2026-11-02''))
           False ex_net ''2026-11-03''))
       = 1"
proof -
  let ?t = "''rcan://example.com/acme/arm-bot/deadbeef''"
  let ?p = "\<lparr> registry = ''example.com'', manufacturer = ''acme'', model = ''arm-bot'',
              deviceId = ''deadbeef'', port = None, capability = None,
              raw = ''rcan://example.com/acme/arm-bot/deadbeef'' \<rparr>"
  let ?d1 = "fst (syncRURI ?t [] False ex_net ''2026-11-02'')"
  have h1: "distinct (map fst ([] :: dir))" by simp
  have h2: "\<forall>e\<in>set ([] :: dir). holds ?t e \<longrightarrow> is_rrn_file (fst e)" by simp
  have h3: "records_for ?t [] \<le> 1" by (simp add: records_for_def)
  have h5: "ex_net (ruriToHttpUrl ?p) = Inr ex_manifest" by (simp add: ex_url ex_net_def)
  have h6: "m_ruri ex_manifest = Str ?t" by (simp add: ex_manifest_def)
  from repeated_sync_reuses_identifier [where net = ex_net and today = "''2026-11-02''",
      OF h1 h2 h3 ex_sync_parse h5 h6]
  obtain rrn where f: "rrn_of (snd (syncRURI ?t [] False ex_net ''2026-11-02'')) = Some rrn"
    and l: "\<And>days day.
          rrn_of (snd (syncRURI ?t (sync_each (map (\<lambda>t. (?t, ex_net, t)) days) False ?d1)
             False ex_net day)) = Some rrn
        \<and> records_for ?t (sync_each (map (\<lambda>t. (?t, ex_net, t)) days) False ?d1) = 1"
    by blast
  have r: "rrn = ''RRN-00000001''" using f by (simp add: ex_sync)
  from l [of "[]" "''2026-11-03''"]
  have a: "rrn_of (snd (syncRURI ?t ?d1 False ex_net ''2026-11-03'')) = Some rrn" by simp
  from l [of "[''2026-11-03'']" "''2026-11-03''"]
  have b: "records_for ?t (fst (syncRURI ?t ?d1 False ex_net ''2026-11-03'')) = 1" by simp
  from h1 h3 ex_sync_parse h5 h6 f a b show ?thesis unfolding r by blast
qed

end
